theory Spec2Isabelle
  imports Main "HOL-Library.Sublist"
begin

section \<open>Tokens and the lexer contract\<close>

text \<open>
  The parser of \<^verbatim>\<open>parser/parser.go\<close> reads tokens \<^verbatim>\<open>{Type, Literal, LineNumber}\<close>
  from a lexer. The packages \<^verbatim>\<open>token\<close> and \<^verbatim>\<open>lexer\<close> are not among the sources, so the
  token kinds are the constants that \<^verbatim>\<open>parser.go\<close> names, together with the two boolean
  connectives of the specification's input contract and one constructor for every other
  kind (the zero value of a Go \<^verbatim>\<open>token.Type\<close> is \<open>OtherType ''''\<close>).
\<close>

datatype tokenType =
    EOF | IDENT | STRING | RAWSTRING
  | SCRIPT | RAW | RAWGLOBAL | IF | ELSEIF | ELSE | VAR | FLAG | TRUE | FALSE
  | LPAREN | RPAREN | LBRACE | RBRACE | COMMA
  | GT | GTE | LT | LTE | EQ | NEQ
  | AND | OR
  | OtherType string

text \<open>
  Modelled from the spec: the spelling of a token kind under \<^verbatim>\<open>%s\<close>. A \<^verbatim>\<open>token.Type\<close> is
  a Go string; the constants' values are declared in the absent \<^verbatim>\<open>token\<close> package, and
  the punctuation, operators and boolean literals are spelled as section 6 of the
  specification lists them.
\<close>

fun typeString :: "tokenType \<Rightarrow> string" where
  "typeString EOF = ''EOF''"
| "typeString IDENT = ''IDENT''"
| "typeString STRING = ''STRING''"
| "typeString RAWSTRING = ''RAWSTRING''"
| "typeString SCRIPT = ''SCRIPT''"
| "typeString RAW = ''RAW''"
| "typeString RAWGLOBAL = ''RAWGLOBAL''"
| "typeString IF = ''IF''"
| "typeString ELSEIF = ''ELSEIF''"
| "typeString ELSE = ''ELSE''"
| "typeString VAR = ''VAR''"
| "typeString FLAG = ''FLAG''"
| "typeString TRUE = ''TRUE''"
| "typeString FALSE = ''FALSE''"
| "typeString LPAREN = ''(''"
| "typeString RPAREN = '')''"
| "typeString LBRACE = ''{''"
| "typeString RBRACE = ''}''"
| "typeString COMMA = '',''"
| "typeString GT = ''>''"
| "typeString GTE = ''>=''"
| "typeString LT = ''<''"
| "typeString LTE = ''<=''"
| "typeString EQ = ''==''"
| "typeString NEQ = ''!=''"
| "typeString AND = ''&&''"
| "typeString OR = ''||''"
| "typeString (OtherType s) = s"

record token =
  Type :: tokenType
  Literal :: string
  LineNumber :: int

definition zeroToken :: token where
  "zeroToken = \<lparr>Type = OtherType [], Literal = [], LineNumber = 0\<rparr>"

text \<open>
  Modelled from the spec: the lexer, an external collaborator that the parser uses only
  through \<^verbatim>\<open>NextToken\<close>. It holds the tokens not yet handed out; once they are used up
  it answers with the end-of-input token (of the line where the input ended) for ever.
\<close>

record lexer =
  pending :: "token list"
  eofLine :: int

definition eofToken :: "lexer \<Rightarrow> token" where
  "eofToken lx = \<lparr>Type = EOF, Literal = [], LineNumber = eofLine lx\<rparr>"

definition NextToken :: "lexer \<Rightarrow> token \<times> lexer" where
  "NextToken lx =
     (case pending lx of
        [] \<Rightarrow> (eofToken lx, lx)
      | t # ts \<Rightarrow> (t, lx\<lparr>pending := ts\<rparr>))"

section \<open>Formatting\<close>

text \<open>\<^verbatim>\<open>%d\<close> of \<^verbatim>\<open>fmt.Sprintf\<close>: the decimal digits of an integer, with a sign when negative.\<close>

definition digitChar :: "nat \<Rightarrow> char" where
  "digitChar d = ''0123456789'' ! (d mod 10)"

fun showNat :: "nat \<Rightarrow> string" where
  "showNat n = (if n < 10 then [digitChar n] else showNat (n div 10) @ [digitChar n])"

declare showNat.simps [simp del]

definition showInt :: "int \<Rightarrow> string" where
  "showInt i = (if i < 0 then CHR ''-'' # showNat (nat (- i)) else showNat (nat i))"

text \<open>The apostrophe that the messages put around a literal.\<close>

abbreviation (input) sq :: string where
  "sq \<equiv> [CHR 0x27]"

text \<open>\<^verbatim>\<open>strings.Join(parts, sep)\<close>.\<close>

fun strings_Join :: "string list \<Rightarrow> string \<Rightarrow> string" where
  "strings_Join [] sep = []"
| "strings_Join [x] sep = x"
| "strings_Join (x # y # ys) sep = x @ sep @ strings_Join (y # ys) sep"

section \<open>The syntax tree built by the parser\<close>

text \<open>
  The nodes are those that \<^verbatim>\<open>parser.go\<close> constructs, with the fields it fills in. A Go
  pointer that the parser may leave \<^verbatim>\<open>nil\<close> in a value it returns is an \<open>option\<close>.
\<close>

record Identifier =
  idToken :: token
  idValue :: string

record Text =
  Name :: string
  Value :: string

datatype statement =
    ScriptStatement (ssToken: token) (ssName: Identifier) (ssBody: "blockStatement option")
  | CommandStatement (csToken: token) (csName: Identifier) (csArgs: "string list")
  | RawStatement (rsToken: token) (rsIsGlobal: bool) (rsName: Identifier) (rsValue: string)
  | IfStatement (isToken: token) (isConsequence: conditionExpression)
      (isElifConsequences: "conditionExpression list")
      (isElseConsequence: "blockStatement option")
and blockStatement =
    BlockStatement (bsToken: token) (bsStatements: "statement list")
and conditionExpression =
    ConditionExpression (ceType: tokenType) (ceOperand: string) (ceOperator: tokenType)
      (ceComparisonValue: string) (ceBody: "blockStatement option")

record program =
  TopLevelStatements :: "statement list"
  Texts :: "Text list"

section \<open>The parser state and its primitives\<close>

record parser =
  l :: lexer
  curToken :: token
  peekToken :: token
  errors :: "string list"
  implicitTexts :: "string list"

definition nextToken :: "parser \<Rightarrow> parser" where
  "nextToken p =
     (let (t, lx) = NextToken (l p)
      in p\<lparr>curToken := peekToken p, peekToken := t, l := lx\<rparr>)"

definition New :: "lexer \<Rightarrow> parser" where
  "New lx =
     nextToken (nextToken
       \<lparr>l = lx, curToken = zeroToken, peekToken = zeroToken, errors = [], implicitTexts = []\<rparr>)"

definition Errors :: "parser \<Rightarrow> string list" where
  "Errors p = errors p"

definition peekTokenIs :: "tokenType \<Rightarrow> parser \<Rightarrow> bool" where
  "peekTokenIs expectedType p = (Type (peekToken p) = expectedType)"

definition peekError :: "tokenType \<Rightarrow> parser \<Rightarrow> parser" where
  "peekError expectedType p =
     p\<lparr>errors := errors p @
        [''expected next token to be type '' @ typeString expectedType @ '', got '' @
         typeString (Type (peekToken p)) @ '' instead'']\<rparr>"

definition expectPeek :: "tokenType \<Rightarrow> parser \<Rightarrow> bool \<times> parser" where
  "expectPeek expectedType p =
     (if peekTokenIs expectedType p then (True, nextToken p)
      else (False, peekError expectedType p))"

definition getImplicitTextLabel :: "nat \<Rightarrow> string" where
  "getImplicitTextLabel i = ''Text_'' @ showNat i"

text \<open>\<^verbatim>\<open>p.errors = append(p.errors, msg)\<close>.\<close>

definition addError :: "string \<Rightarrow> parser \<Rightarrow> parser" where
  "addError msg p = p\<lparr>errors := errors p @ [msg]\<rparr>"

text \<open>
  The number of tokens that the parser has not yet moved past: those pending in the lexer,
  and the two it holds unless they already are the end of the input.
\<close>

definition tokensLeft :: "parser \<Rightarrow> nat" where
  "tokensLeft p =
     (let n = length (pending (l p));
          b = (if n = 0 \<and> Type (peekToken p) = EOF then 0 else 1);
          a = (if b = 0 \<and> Type (curToken p) = EOF then 0 else 1)
      in n + b + a)"

lemma tokensLeft_nextToken_le: "tokensLeft (nextToken p) \<le> tokensLeft p"
  by (cases "pending (l p)")
     (auto simp: tokensLeft_def nextToken_def NextToken_def eofToken_def Let_def)

lemma tokensLeft_nextToken_less:
  "0 < tokensLeft p \<Longrightarrow> tokensLeft (nextToken p) < tokensLeft p"
  by (cases "pending (l p)")
     (auto simp: tokensLeft_def nextToken_def NextToken_def eofToken_def Let_def
           split: if_splits)

lemma tokensLeft_pos_cur: "Type (curToken p) \<noteq> EOF \<Longrightarrow> 0 < tokensLeft p"
  by (simp add: tokensLeft_def Let_def)

lemma tokensLeft_pos_peek: "Type (peekToken p) \<noteq> EOF \<Longrightarrow> 0 < tokensLeft p"
  by (simp add: tokensLeft_def Let_def)

section \<open>Command statements\<close>

lemma tokensLeft_implicitTexts [simp]: "tokensLeft (p\<lparr>implicitTexts := x\<rparr>) = tokensLeft p"
  by (simp add: tokensLeft_def)

lemma tokensLeft_errors [simp]: "tokensLeft (p\<lparr>errors := x\<rparr>) = tokensLeft p"
  by (simp add: tokensLeft_def)

lemma tokensLeft_addError [simp]: "tokensLeft (addError m p) = tokensLeft p"
  by (simp add: addError_def)

lemma nextToken_implicitTexts [simp]:
  "nextToken (p\<lparr>implicitTexts := x\<rparr>) = (nextToken p)\<lparr>implicitTexts := x\<rparr>"
  by (simp add: nextToken_def split: prod.splits)

lemma nextToken_errors [simp]:
  "nextToken (p\<lparr>errors := x\<rparr>) = (nextToken p)\<lparr>errors := x\<rparr>"
  by (simp add: nextToken_def split: prod.splits)

text \<open>
  The loop of \<^verbatim>\<open>parseCommandStatement\<close> (parser.go, lines 202 to 228) over the tokens of
  the argument list. Its variables are the command's \<^verbatim>\<open>Args\<close>, \<^verbatim>\<open>argParts\<close>,
  \<^verbatim>\<open>numOpenParens\<close> and the parser. The result \<open>None\<close> is the \<^verbatim>\<open>return nil\<close> at the end of
  the input; otherwise the loop hands back \<^verbatim>\<open>Args\<close> and \<^verbatim>\<open>argParts\<close>.
\<close>

function commandArgsLoop ::
  "token \<Rightarrow> Identifier \<Rightarrow> string list \<Rightarrow> string list \<Rightarrow> int \<Rightarrow> parser
     \<Rightarrow> (string list \<times> string list) option \<times> parser" where
  "commandArgsLoop tok name args argParts numOpenParens p =
     (if \<not> (Type (curToken p) = RPAREN \<and> numOpenParens = 0) then
        if Type (curToken p) = EOF then
          (None,
            addError (''line '' @ showInt (LineNumber tok) @
              '': missing closing parenthesis for command '' @ sq @ Literal (idToken name) @ sq) p)
        else if Type (curToken p) = COMMA then
          commandArgsLoop tok name (args @ [strings_Join argParts '' '']) [] numOpenParens
            (nextToken p)
        else if Type (curToken p) = LPAREN then
          commandArgsLoop tok name args (argParts @ [Literal (curToken p)]) (numOpenParens + 1)
            (nextToken p)
        else if Type (curToken p) = RPAREN then
          commandArgsLoop tok name args (argParts @ [Literal (curToken p)]) (numOpenParens - 1)
            (nextToken p)
        else if Type (curToken p) = STRING then
          commandArgsLoop tok name args
            (argParts @ [getImplicitTextLabel (length (implicitTexts p))]) numOpenParens
            (nextToken (p\<lparr>implicitTexts := implicitTexts p @ [Literal (curToken p)]\<rparr>))
        else
          commandArgsLoop tok name args (argParts @ [Literal (curToken p)]) numOpenParens
            (nextToken p)
      else (Some (args, argParts), p))"
  by pat_completeness auto


termination commandArgsLoop
  by (relation "measure (\<lambda>(tok, name, args, argParts, n, p). tokensLeft p)")
     (auto intro!: tokensLeft_nextToken_less tokensLeft_pos_cur)

declare commandArgsLoop.simps [simp del]

text \<open>
  \<^verbatim>\<open>parseCommandStatement\<close> (parser.go, lines 187 to 237). The first component of the
  result is the returned statement, \<open>None\<close> for \<^verbatim>\<open>nil\<close>.
\<close>

definition parseCommandStatement :: "parser \<Rightarrow> statement option \<times> parser" where
  "parseCommandStatement p =
     (let tok = curToken p;
          name = \<lparr>idToken = curToken p, idValue = Literal (curToken p)\<rparr>
      in if peekTokenIs LPAREN p then
           (case commandArgsLoop tok name [] [] 0 (nextToken (nextToken p)) of
              (None, p') \<Rightarrow> (None, p')
            | (Some (args, argParts), p') \<Rightarrow>
                (Some (CommandStatement tok name
                   (if length argParts > 0 then args @ [strings_Join argParts '' ''] else args)),
                 p'))
         else (Some (CommandStatement tok name []), p))"

section \<open>Conditions\<close>

text \<open>
  The loop that gathers the literals up to the next closing parenthesis. It stands twice in
  the source, word for word: for the operand (\<^verbatim>\<open>parseIfConditionExpression\<close>, parser.go
  lines 329 to 333) and for the comparison value (\<^verbatim>\<open>parseIfVarOperator\<close>, lines 368 to
  372). Neither loop looks for the end of the input, so the loop is a partial function: the
  value \<open>None\<close> says that it does not return.
\<close>

partial_function (option) partsLoop :: "string list \<Rightarrow> parser \<Rightarrow> (string list \<times> parser) option" where
  "partsLoop parts p =
     (if Type (curToken p) \<noteq> RPAREN then
        partsLoop (parts @ [Literal (curToken p)]) (nextToken p)
      else Some (parts, p))"

declare partsLoop.simps [code]

text \<open>Assignments to the fields of a \<^verbatim>\<open>*ast.ConditionExpression\<close>.\<close>

fun setOperand :: "string \<Rightarrow> conditionExpression \<Rightarrow> conditionExpression" where
  "setOperand v (ConditionExpression ty operand operator cv body) =
     ConditionExpression ty v operator cv body"

fun setOperator :: "tokenType \<Rightarrow> conditionExpression \<Rightarrow> conditionExpression" where
  "setOperator v (ConditionExpression ty operand operator cv body) =
     ConditionExpression ty operand v cv body"

fun setComparisonValue :: "string \<Rightarrow> conditionExpression \<Rightarrow> conditionExpression" where
  "setComparisonValue v (ConditionExpression ty operand operator cv body) =
     ConditionExpression ty operand operator v body"

fun setBody :: "blockStatement option \<Rightarrow> conditionExpression \<Rightarrow> conditionExpression" where
  "setBody v (ConditionExpression ty operand operator cv body) =
     ConditionExpression ty operand operator cv v"

text \<open>
  \<^verbatim>\<open>parseIfVarOperator\<close> (parser.go, lines 353 to 380). The result holds the returned
  boolean, the expression as the call leaves it, and the parser.
\<close>

definition parseIfVarOperator ::
  "conditionExpression \<Rightarrow> parser \<Rightarrow> (bool \<times> conditionExpression \<times> parser) option" where
  "parseIfVarOperator expression p =
     (if Type (curToken p) \<noteq> GT \<and> Type (curToken p) \<noteq> GTE \<and> Type (curToken p) \<noteq> LT \<and>
         Type (curToken p) \<noteq> LTE \<and> Type (curToken p) \<noteq> EQ \<and> Type (curToken p) \<noteq> NEQ then
        Some (False, expression,
          addError (''line '' @ showInt (LineNumber (curToken p)) @
            '': invalid condition operator '' @ sq @ Literal (curToken p) @ sq) p)
      else
        let expression1 = setOperator (Type (curToken p)) expression;
            p1 = nextToken p
        in if Type (curToken p1) = RPAREN then
             Some (False, expression1,
               addError (''line '' @ showInt (LineNumber (curToken p1)) @
                 '': missing comparison value for if statement'') p1)
           else
             (case partsLoop [] p1 of
                None \<Rightarrow> None
              | Some (parts, p2) \<Rightarrow>
                  (case expectPeek LBRACE p2 of
                     (False, p3) \<Rightarrow> Some (False, expression1, p3)
                   | (True, p3) \<Rightarrow>
                       Some (True, setComparisonValue (strings_Join parts '' '') expression1,
                         nextToken p3))))"

text \<open>\<^verbatim>\<open>parseIfFlagOperator\<close> (parser.go, lines 382 to 413).\<close>

definition parseIfFlagOperator ::
  "conditionExpression \<Rightarrow> parser \<Rightarrow> bool \<times> conditionExpression \<times> parser" where
  "parseIfFlagOperator expression p =
     (if Type (curToken p) \<noteq> EQ then
        (False, expression,
          addError (''line '' @ showInt (LineNumber (curToken p)) @
            '': invalid condition operator '' @ sq @ Literal (curToken p) @ sq @
            ''. Only '' @ sq @ ''=='' @ sq @ '' is allowed.'') p)
      else
        let expression1 = setOperator (Type (curToken p)) expression;
            p1 = nextToken p
        in if Type (curToken p1) = RPAREN then
             (False, expression1,
               addError (''line '' @ showInt (LineNumber (curToken p1)) @
                 '': missing comparison value for if statement'') p1)
           else if Type (curToken p1) \<noteq> TRUE \<and> Type (curToken p1) \<noteq> FALSE then
             (False, expression1,
               addError (''line '' @ showInt (LineNumber (curToken p1)) @
                 '': invalid flag comparison value '' @ sq @ Literal (curToken p1) @ sq @
                 ''. Only '' @ sq @ ''TRUE'' @ sq @ '' and '' @ sq @ ''FALSE'' @ sq @
                 '' are allowed.'') p1)
           else
             let expression2 = setComparisonValue (typeString (Type (curToken p1))) expression1
             in (case expectPeek RPAREN p1 of
                   (False, p2) \<Rightarrow> (False, expression2, p2)
                 | (True, p2) \<Rightarrow>
                     (case expectPeek LBRACE p2 of
                        (False, p3) \<Rightarrow> (False, expression2, p3)
                      | (True, p3) \<Rightarrow> (True, expression2, nextToken p3))))"

text \<open>
  The choice between the two in \<^verbatim>\<open>parseIfConditionExpression\<close> (parser.go, lines 337 to
  347); an expression of any other kind is left alone.
\<close>

definition parseIfOperator ::
  "conditionExpression \<Rightarrow> parser \<Rightarrow> (bool \<times> conditionExpression \<times> parser) option" where
  "parseIfOperator expression p =
     (if ceType expression = VAR then parseIfVarOperator expression p
      else if ceType expression = FLAG then Some (parseIfFlagOperator expression p)
      else Some (True, expression, p))"

section \<open>Blocks, statements and if statements\<close>

text \<open>
  \<^verbatim>\<open>parseBlockStatement\<close> (parser.go, lines 141 to 164) with its loop \<open>blockLoop\<close>,
  \<^verbatim>\<open>parseStatement\<close> (lines 166 to 185), \<^verbatim>\<open>parseIfStatement\<close> (lines 261 to 306) with its
  loop over the elif conditions \<open>elifLoop\<close>, and \<^verbatim>\<open>parseIfConditionExpression\<close> (lines 308
  to 351). The outer \<open>option\<close> is \<open>None\<close> when a call does not return; the inner one is the
  returned pointer, \<open>None\<close> for \<^verbatim>\<open>nil\<close>.
\<close>

function parseBlockStatement :: "parser \<Rightarrow> (blockStatement option \<times> parser) option"
  and blockLoop :: "blockStatement \<Rightarrow> parser \<Rightarrow> (blockStatement option \<times> parser) option"
  and parseStatement :: "parser \<Rightarrow> (statement option \<times> parser) option"
  and parseIfStatement :: "parser \<Rightarrow> (statement option \<times> parser) option"
  and elifLoop ::
    "conditionExpression list \<Rightarrow> parser \<Rightarrow> (conditionExpression list option \<times> parser) option"
  and parseIfConditionExpression ::
    "int \<Rightarrow> parser \<Rightarrow> (conditionExpression option \<times> parser) option"
where
  "parseBlockStatement p = blockLoop (BlockStatement (curToken p) []) p"
| "blockLoop block p =
     (if Type (curToken p) \<noteq> RBRACE then
        if Type (curToken p) = EOF then
          Some (None,
            addError (''line '' @ showInt (LineNumber (bsToken block)) @
              '': missing closing curly brace for block statement'') p)
        else
          (case parseStatement p of
             None \<Rightarrow> None
           | Some (None, p1) \<Rightarrow> Some (None, p1)
           | Some (Some statement, p1) \<Rightarrow>
               blockLoop (BlockStatement (bsToken block) (bsStatements block @ [statement]))
                 (nextToken p1))
      else Some (Some block, p))"
| "parseStatement p =
     (if Type (curToken p) = IDENT then Some (parseCommandStatement p)
      else if Type (curToken p) = IF then
        (case parseIfStatement p of
           None \<Rightarrow> None
         | Some (None, p1) \<Rightarrow> Some (None, p1)
         | Some (Some statement, p1) \<Rightarrow> Some (Some statement, p1))
      else
        Some (None,
          addError (''line '' @ showInt (LineNumber (curToken p)) @
            '': could not parse statement for '' @ sq @ Literal (curToken p) @ sq @ [CHR 0x0A]) p))"
| "parseIfStatement p =
     (case expectPeek LPAREN p of
        (False, p1) \<Rightarrow>
          Some (None,
            addError (''line '' @ showInt (LineNumber (curToken p)) @
              '': missing opening parenthesis of if statement '' @ sq @ Literal (peekToken p1) @ sq)
              p1)
      | (True, p1) \<Rightarrow>
          (case parseIfConditionExpression (LineNumber (curToken p)) p1 of
             None \<Rightarrow> None
           | Some (None, p2) \<Rightarrow> Some (None, p2)
           | Some (Some consequence, p2) \<Rightarrow>
               (case elifLoop [] p2 of
                  None \<Rightarrow> None
                | Some (None, p3) \<Rightarrow> Some (None, p3)
                | Some (Some elifConsequences, p3) \<Rightarrow>
                    if Type (peekToken p3) = ELSE then
                      (case expectPeek LBRACE (nextToken p3) of
                         (False, p4) \<Rightarrow>
                           Some (None,
                             addError (''line '' @ showInt (LineNumber (peekToken p4)) @
                               '': missing opening curly brace of else statement '' @ sq @
                               Literal (peekToken p4) @ sq) p4)
                       | (True, p4) \<Rightarrow>
                           (case parseBlockStatement (nextToken p4) of
                              None \<Rightarrow> None
                            | Some (elseConsequence, p5) \<Rightarrow>
                                Some (Some (IfStatement (curToken p) consequence elifConsequences
                                  elseConsequence), p5)))
                    else
                      Some (Some (IfStatement (curToken p) consequence elifConsequences None),
                        p3))))"
| "elifLoop elifConsequences p =
     (if Type (peekToken p) = ELSEIF then
        (case expectPeek LPAREN (nextToken p) of
           (False, p1) \<Rightarrow>
             Some (None,
               addError (''line '' @ showInt (LineNumber (curToken p1)) @
                 '': missing opening parenthesis of elif statement '' @ sq @
                 Literal (peekToken p1) @ sq) p1)
         | (True, p1) \<Rightarrow>
             (case parseIfConditionExpression (LineNumber (peekToken p1)) p1 of
                None \<Rightarrow> None
              | Some (None, p2) \<Rightarrow> Some (None, p2)
              | Some (Some consequence, p2) \<Rightarrow> elifLoop (elifConsequences @ [consequence]) p2))
      else Some (Some elifConsequences, p))"
| "parseIfConditionExpression lineNumber p =
     (if \<not> peekTokenIs VAR p \<and> \<not> peekTokenIs FLAG p then
        Some (None,
          addError (''line '' @ showInt lineNumber @ '': invalid if statement command '' @ sq @
            Literal (peekToken p) @ sq) p)
      else
        let p0 = nextToken p;
            expression = ConditionExpression (Type (curToken p0)) [] (OtherType []) [] None
        in (case expectPeek LPAREN p0 of
              (False, p1) \<Rightarrow>
                Some (None,
                  addError (''line '' @ showInt lineNumber @
                    '': missing opening parenthesis for if statement operator '' @ sq @
                    typeString (ceType expression) @ sq) p1)
            | (True, p1) \<Rightarrow>
                if Type (peekToken p1) = RPAREN then
                  Some (None,
                    addError (''line '' @ showInt lineNumber @
                      '': missing value for if statement operator '' @ sq @
                      typeString (ceType expression) @ sq) p1)
                else
                  (case partsLoop [] (nextToken p1) of
                     None \<Rightarrow> None
                   | Some (parts, p2) \<Rightarrow>
                       (case parseIfOperator (setOperand (strings_Join parts '' '') expression)
                               (nextToken p2) of
                          None \<Rightarrow> None
                        | Some (False, expression1, p3) \<Rightarrow> Some (None, p3)
                        | Some (True, expression1, p3) \<Rightarrow>
                            (case parseBlockStatement p3 of
                               None \<Rightarrow> None
                             | Some (body, p4) \<Rightarrow>
                                 Some (Some (setBody body expression1), p4))))))"
  by pat_completeness auto


text \<open>
  Termination. No call leaves more tokens than it found, and each call of the recursion
  that does not start where its caller started has moved past a token.
\<close>

lemmas parse_pinduct = parseBlockStatement_blockLoop_parseStatement_parseIfStatement_elifLoop_parseIfConditionExpression.pinduct


lemma partsLoop_tokensLeft:
  assumes "partsLoop parts p = Some r"
  shows "tokensLeft (snd r) \<le> tokensLeft p"
proof (rule partsLoop.raw_induct[OF _ assms])
  fix f parts p r
  assume IH: "\<And>parts p r. f parts p = Some r \<Longrightarrow> tokensLeft (snd r) \<le> tokensLeft p"
    and step: "(if Type (curToken p) \<noteq> RPAREN
                then f (parts @ [Literal (curToken p)]) (nextToken p)
                else Some (parts, p)) = Some r"
  show "tokensLeft (snd r) \<le> tokensLeft p"
  proof (cases "Type (curToken p) = RPAREN")
    case True
    with step show ?thesis by auto
  next
    case False
    with step have "f (parts @ [Literal (curToken p)]) (nextToken p) = Some r" by simp
    from IH[OF this] tokensLeft_nextToken_le[of p] show ?thesis by linarith
  qed
qed

lemma expectPeek_tokensLeft:
  "expectPeek t p = (ok, p') \<Longrightarrow> tokensLeft p' \<le> tokensLeft p"
  by (auto simp: expectPeek_def peekError_def tokensLeft_nextToken_le split: if_splits)

lemma expectPeek_tokensLeft_less:
  "expectPeek t p = (True, p') \<Longrightarrow> t \<noteq> EOF \<Longrightarrow> tokensLeft p' < tokensLeft p"
  by (auto simp: expectPeek_def peekTokenIs_def split: if_splits
           intro!: tokensLeft_nextToken_less tokensLeft_pos_peek)

lemma commandArgsLoop_tokensLeft:
  "commandArgsLoop tok name args argParts n p = (r, p') \<Longrightarrow> tokensLeft p' \<le> tokensLeft p"
proof (induction tok name args argParts n p rule: commandArgsLoop.induct)
  case (1 tok name args argParts numOpenParens p)
  note le = tokensLeft_nextToken_le[of p]
  show ?case
  proof (cases "Type (curToken p) = RPAREN \<and> numOpenParens = 0")
    case True
    with "1.prems" show ?thesis by (simp add: commandArgsLoop.simps)
  next
    case out: False
    show ?thesis
    proof (cases "Type (curToken p) = EOF")
      case True
      with out "1.prems" show ?thesis by (auto simp: commandArgsLoop.simps)
    next
      case False
      with out "1.prems" "1.IH" le show ?thesis
        apply (subst (asm) commandArgsLoop.simps)
        apply (simp split: if_splits)
        done
    qed
  qed
qed


lemma parseCommandStatement_tokensLeft:
  "parseCommandStatement p = (r, p') \<Longrightarrow> tokensLeft p' \<le> tokensLeft p"
  using tokensLeft_nextToken_le[of p] tokensLeft_nextToken_le[of "nextToken p"]
  by (auto simp: parseCommandStatement_def Let_def split: if_splits prod.splits option.splits
           dest!: commandArgsLoop_tokensLeft)

lemma tokensLeft_nextToken_trans: "tokensLeft p \<le> n \<Longrightarrow> tokensLeft (nextToken p) \<le> n"
  using tokensLeft_nextToken_le[of p] by simp

lemma parseIfVarOperator_tokensLeft:
  "parseIfVarOperator e p = Some (ok, e', p') \<Longrightarrow> tokensLeft p' \<le> tokensLeft p"
  using tokensLeft_nextToken_le[of p]
  by (auto simp: parseIfVarOperator_def Let_def
           split: if_splits prod.splits option.splits bool.splits
           dest!: partsLoop_tokensLeft expectPeek_tokensLeft
           intro!: tokensLeft_nextToken_trans)

lemma parseIfFlagOperator_tokensLeft:
  "parseIfFlagOperator e p = (ok, e', p') \<Longrightarrow> tokensLeft p' \<le> tokensLeft p"
  using tokensLeft_nextToken_le[of p]
  by (auto simp: parseIfFlagOperator_def Let_def
           split: if_splits prod.splits option.splits bool.splits
           dest!: expectPeek_tokensLeft
           intro!: tokensLeft_nextToken_trans)

lemma parseIfOperator_tokensLeft:
  "parseIfOperator e p = Some (ok, e', p') \<Longrightarrow> tokensLeft p' \<le> tokensLeft p"
  by (auto simp: parseIfOperator_def split: if_splits
           dest: parseIfVarOperator_tokensLeft parseIfFlagOperator_tokensLeft)


abbreviation (input) "parse_dom \<equiv> parseBlockStatement_blockLoop_parseStatement_parseIfStatement_elifLoop_parseIfConditionExpression_dom"

lemma is_True: "b \<Longrightarrow> b = True"
  by simp

lemma parse_dom_tokensLeft:
  shows "parse_dom (Inl (Inl p1)) \<Longrightarrow>
           \<forall>r p'. parseBlockStatement p1 = Some (r, p') \<longrightarrow> tokensLeft p' \<le> tokensLeft p1"
    and "parse_dom (Inl (Inr (Inl (block, p2)))) \<Longrightarrow>
           \<forall>r p'. blockLoop block p2 = Some (r, p') \<longrightarrow> tokensLeft p' \<le> tokensLeft p2"
    and "parse_dom (Inl (Inr (Inr p3))) \<Longrightarrow>
           \<forall>r p'. parseStatement p3 = Some (r, p') \<longrightarrow> tokensLeft p' \<le> tokensLeft p3"
    and "parse_dom (Inr (Inl p4)) \<Longrightarrow>
           \<forall>r p'. parseIfStatement p4 = Some (r, p') \<longrightarrow> tokensLeft p' \<le> tokensLeft p4"
    and "parse_dom (Inr (Inr (Inl (elifs, p5)))) \<Longrightarrow>
           \<forall>r p'. elifLoop elifs p5 = Some (r, p') \<longrightarrow> tokensLeft p' \<le> tokensLeft p5"
    and "parse_dom (Inr (Inr (Inr (ln, p6)))) \<Longrightarrow>
           \<forall>r p'. parseIfConditionExpression ln p6 = Some (r, p') \<longrightarrow> tokensLeft p' \<le> tokensLeft p6"
proof (induct rule: parse_pinduct)
  case (1 p)
  then show ?case by (simp add: parseBlockStatement.psimps)
next
  case (2 block p)
  show ?case
  proof (intro allI impI)
    fix r p' assume r: "blockLoop block p = Some (r, p')"
    show "tokensLeft p' \<le> tokensLeft p"
    proof (cases "Type (curToken p) \<noteq> RBRACE \<and> Type (curToken p) \<noteq> EOF")
      case False
      with r "2.hyps"(1) show ?thesis
        by (auto simp: blockLoop.psimps split: if_splits)
    next
      case True
      then obtain x p1 where ps: "parseStatement p = Some (x, p1)"
        using r "2.hyps"(1) by (auto simp: blockLoop.psimps split: option.splits)
      from True "2.hyps"(2) ps have le1: "tokensLeft p1 \<le> tokensLeft p" by blast
      show ?thesis
      proof (cases x)
        case None
        with r ps True "2.hyps"(1) le1 show ?thesis by (auto simp: blockLoop.psimps)
      next
        case (Some statement)
        with r ps True "2.hyps"(1)
        have "blockLoop (BlockStatement (bsToken block) (bsStatements block @ [statement]))
                (nextToken p1) = Some (r, p')"
          by (auto simp: blockLoop.psimps)
        with "2.hyps"(3)[OF _ _ ps refl Some] True
        have "tokensLeft p' \<le> tokensLeft (nextToken p1)" by blast
        with le1 tokensLeft_nextToken_le[of p1] show ?thesis by linarith
      qed
    qed
  qed
next
  case (3 p)
  then show ?case
    by (auto simp: parseStatement.psimps addError_def split: if_splits option.splits
             dest: parseCommandStatement_tokensLeft)
next
  case (4 p)
  show ?case
  proof (intro allI impI)
    fix r p' assume r: "parseIfStatement p = Some (r, p')"
    note ps = parseIfStatement.psimps[OF "4.hyps"(1)]
    obtain ok p1 where ep: "expectPeek LPAREN p = (ok, p1)" by (cases "expectPeek LPAREN p")
    note le1 = expectPeek_tokensLeft[OF ep]
    show "tokensLeft p' \<le> tokensLeft p"
    proof (cases ok)
      case False
      with r ep le1 show ?thesis by (auto simp: ps)
    next
      case True
      obtain c p2 where ce: "parseIfConditionExpression (LineNumber (curToken p)) p1 = Some (c, p2)"
        using r ep True by (auto simp: ps split: option.splits)
      from "4.hyps"(2)[OF ep[symmetric] is_True[OF True]] ce have le2: "tokensLeft p2 \<le> tokensLeft p1" by blast
      show ?thesis
      proof (cases c)
        case None
        with r ep True ce le1 le2 show ?thesis by (auto simp: ps)
      next
        case (Some consequence)
        obtain e p3 where el: "elifLoop [] p2 = Some (e, p3)"
          using r ep True ce Some by (auto simp: ps split: option.splits)
        from "4.hyps"(3)[OF ep[symmetric] is_True[OF True] ce refl Some] el
        have le3: "tokensLeft p3 \<le> tokensLeft p2" by blast
        show ?thesis
        proof (cases e)
          case None
          with r ep True ce Some el le1 le2 le3 show ?thesis by (auto simp: ps)
        next
          case elifs: (Some elifConsequences)
          show ?thesis
          proof (cases "Type (peekToken p3) = ELSE")
            case False
            with r ep True ce Some el elifs le1 le2 le3 show ?thesis by (auto simp: ps)
          next
            case else: True
            obtain ok4 p4 where ep4: "expectPeek LBRACE (nextToken p3) = (ok4, p4)"
              by (cases "expectPeek LBRACE (nextToken p3)")
            from expectPeek_tokensLeft[OF ep4] tokensLeft_nextToken_le[of p3]
            have le4: "tokensLeft p4 \<le> tokensLeft p3" by linarith
            show ?thesis
            proof (cases ok4)
              case False
              with r ep True ce Some el elifs else ep4 le1 le2 le3 le4 show ?thesis
                by (auto simp: ps)
            next
              case ok4: True
              obtain b p5 where pb: "parseBlockStatement (nextToken p4) = Some (b, p5)"
                using r ep True ce Some el elifs else ep4 ok4
                by (auto simp: ps split: option.splits)
              from "4.hyps"(4)[OF ep[symmetric] is_True[OF True] ce refl Some el refl elifs else
                     ep4[symmetric] is_True[OF ok4]] pb
              have "tokensLeft p5 \<le> tokensLeft (nextToken p4)" by blast
              with tokensLeft_nextToken_le[of p4] have le5: "tokensLeft p5 \<le> tokensLeft p4"
                by linarith
              from r ep True ce Some el elifs else ep4 ok4 pb have "p' = p5"
                by (auto simp: ps)
              with le1 le2 le3 le4 le5 show ?thesis by simp
            qed
          qed
        qed
      qed
    qed
  qed
next
  case (5 elifConsequences p)
  show ?case
  proof (intro allI impI)
    fix r p' assume r: "elifLoop elifConsequences p = Some (r, p')"
    note ps = elifLoop.psimps[OF "5.hyps"(1)]
    show "tokensLeft p' \<le> tokensLeft p"
    proof (cases "Type (peekToken p) = ELSEIF")
      case False
      with r show ?thesis by (auto simp: ps)
    next
      case elif: True
      obtain ok p1 where ep: "expectPeek LPAREN (nextToken p) = (ok, p1)"
        by (cases "expectPeek LPAREN (nextToken p)")
      from expectPeek_tokensLeft[OF ep] tokensLeft_nextToken_le[of p]
      have le1: "tokensLeft p1 \<le> tokensLeft p" by linarith
      show ?thesis
      proof (cases ok)
        case False
        with r elif ep le1 show ?thesis by (auto simp: ps)
      next
        case True
        obtain c p2 where
          ce: "parseIfConditionExpression (LineNumber (peekToken p1)) p1 = Some (c, p2)"
          using r elif ep True by (auto simp: ps split: option.splits)
        from "5.hyps"(2)[OF elif ep[symmetric] is_True[OF True]] ce
        have le2: "tokensLeft p2 \<le> tokensLeft p1" by blast
        show ?thesis
        proof (cases c)
          case None
          with r elif ep True ce le1 le2 show ?thesis by (auto simp: ps)
        next
          case (Some consequence)
          with r elif ep True ce
          have "elifLoop (elifConsequences @ [consequence]) p2 = Some (r, p')"
            by (auto simp: ps)
          with "5.hyps"(3)[OF elif ep[symmetric] is_True[OF True] ce refl Some]
          have "tokensLeft p' \<le> tokensLeft p2" by blast
          with le1 le2 show ?thesis by linarith
        qed
      qed
    qed
  qed
next
  case (6 lineNumber p)
  show ?case
  proof (intro allI impI)
    fix r p' assume r: "parseIfConditionExpression lineNumber p = Some (r, p')"
    note ps = parseIfConditionExpression.psimps[OF "6.hyps"(1)]
    show "tokensLeft p' \<le> tokensLeft p"
    proof (cases "\<not> peekTokenIs VAR p \<and> \<not> peekTokenIs FLAG p")
      case True
      with r show ?thesis by (auto simp: ps)
    next
      case kind: False
      define expression where
        "expression = ConditionExpression (Type (curToken (nextToken p))) [] (OtherType []) [] None"
      obtain ok p1 where ep: "expectPeek LPAREN (nextToken p) = (ok, p1)"
        by (cases "expectPeek LPAREN (nextToken p)")
      from expectPeek_tokensLeft[OF ep] tokensLeft_nextToken_le[of p]
      have le1: "tokensLeft p1 \<le> tokensLeft p" by linarith
      show ?thesis
      proof (cases "ok \<and> Type (peekToken p1) \<noteq> RPAREN")
        case False
        with r kind ep le1 show ?thesis
          by (auto simp: ps Let_def split: if_splits bool.splits)
      next
        case True
        obtain parts p2 where pl: "partsLoop [] (nextToken p1) = Some (parts, p2)"
          using r kind ep True by (auto simp: ps Let_def split: option.splits)
        from partsLoop_tokensLeft[OF pl] tokensLeft_nextToken_le[of p1]
        have le2: "tokensLeft p2 \<le> tokensLeft p1" by simp
        obtain b expression1 p3 where
          po: "parseIfOperator (setOperand (strings_Join parts '' '') expression) (nextToken p2)
                 = Some (b, expression1, p3)"
          using r kind ep True pl
          by (auto simp: ps Let_def expression_def split: option.splits)
        from parseIfOperator_tokensLeft[OF po] tokensLeft_nextToken_le[of p2]
        have le3: "tokensLeft p3 \<le> tokensLeft p2" by simp
        show ?thesis
        proof (cases b)
          case False
          with r kind ep True pl po le1 le2 le3 show ?thesis
            by (auto simp: ps Let_def expression_def)
        next
          case b: True
          obtain body p4 where pb: "parseBlockStatement p3 = Some (body, p4)"
            using r kind ep True pl po b
            by (auto simp: ps Let_def expression_def split: option.splits)
          from True have ok: "ok = True" and nr: "Type (peekToken p1) \<noteq> RPAREN" by auto
          from "6.hyps"(2)[OF kind refl refl ep[symmetric] ok nr pl refl
                 po[unfolded expression_def] refl is_True[OF b] refl] pb
          have le4: "tokensLeft p4 \<le> tokensLeft p3" by blast
          from r kind ep True pl po b pb have "p' = p4"
            by (auto simp: ps Let_def expression_def)
          with le1 le2 le3 le4 show ?thesis by simp
        qed
      qed
    qed
  qed
qed


lemma tokensLeft_step:
  "tokensLeft y \<le> tokensLeft p \<Longrightarrow> 0 < tokensLeft p \<Longrightarrow> tokensLeft (nextToken y) < tokensLeft p"
  using tokensLeft_nextToken_less[of y] tokensLeft_nextToken_le[of y]
  by (cases "tokensLeft y = 0") auto

lemma parse_total: "All parse_dom"
proof (rule "parseBlockStatement_blockLoop_parseStatement_parseIfStatement_elifLoop_parseIfConditionExpression.termination"
    [of "inv_image (less_than <*lex*> less_than)
    (\<lambda>x. case x of
       Inl (Inl p) \<Rightarrow> (tokensLeft p, 3::nat)
     | Inl (Inr (Inl (block, p))) \<Rightarrow> (tokensLeft p, 2)
     | Inl (Inr (Inr p)) \<Rightarrow> (tokensLeft p, 1)
     | Inr (Inl p) \<Rightarrow> (tokensLeft p, 0)
     | Inr (Inr (Inl (elifs, p))) \<Rightarrow> (tokensLeft p, 0)
     | Inr (Inr (Inr (ln, p))) \<Rightarrow> (tokensLeft p, 0))"], goal_cases)
  case 1
  then show ?case by (intro wf_inv_image wf_lex_prod wf_less_than)
next
  case (2 p)
  then show ?case by simp
next
  case (3 block p)
  then show ?case by simp
next
  case (4 block p x2 x y x2a)
  from parse_dom_tokensLeft(3)[OF "4"(6)] "4"(3,4)
  have "tokensLeft y \<le> tokensLeft p" by auto
  from tokensLeft_step[OF this tokensLeft_pos_cur[OF "4"(2)]]
  show ?case by simp
next
  case (5 p)
  then show ?case by simp
next
  case (6 p x y)
  from expectPeek_tokensLeft_less[of LPAREN p y] "6"
  show ?case by simp
next
  case (7 p x y x2 xa ya x2a)
  from expectPeek_tokensLeft_less[of LPAREN p y] "7"(1,2)
  have "tokensLeft y < tokensLeft p" by simp
  moreover from parse_dom_tokensLeft(6)[OF "7"(6)] "7"(3,4)
  have "tokensLeft ya \<le> tokensLeft y" by auto
  ultimately show ?case by simp
next
  case (8 p x y x2 xa ya x2a x2b xb yb x2c xc yc)
  from expectPeek_tokensLeft_less[of LPAREN p y] "8"(1,2)
  have "tokensLeft y < tokensLeft p" by simp
  moreover from parse_dom_tokensLeft(6)[OF "8"(13)] "8"(3,4)
  have "tokensLeft ya \<le> tokensLeft y" by auto
  moreover from parse_dom_tokensLeft(5)[OF "8"(12)] "8"(6,7)
  have "tokensLeft yb \<le> tokensLeft ya" by auto
  moreover from expectPeek_tokensLeft[of LBRACE "nextToken yb" xc yc] "8"(10)
    tokensLeft_nextToken_le[of yb]
  have "tokensLeft yc \<le> tokensLeft yb" by simp
  moreover note tokensLeft_nextToken_le[of yc]
  ultimately show ?case by simp
next
  case (9 elifConsequences p x y)
  from tokensLeft_nextToken_less[OF tokensLeft_pos_peek, of p] "9"(1)
  have "tokensLeft (nextToken p) < tokensLeft p" by simp
  moreover from expectPeek_tokensLeft[of LPAREN "nextToken p" x y] "9"(2)
  have "tokensLeft y \<le> tokensLeft (nextToken p)" by simp
  ultimately show ?case by simp
next
  case (10 elifConsequences p x y x2 xa ya x2a)
  from tokensLeft_nextToken_less[OF tokensLeft_pos_peek, of p] "10"(1)
  have "tokensLeft (nextToken p) < tokensLeft p" by simp
  moreover from expectPeek_tokensLeft[of LPAREN "nextToken p" x y] "10"(2)
  have "tokensLeft y \<le> tokensLeft (nextToken p)" by simp
  moreover from parse_dom_tokensLeft(6)[OF "10"(7)] "10"(4,5)
  have "tokensLeft ya \<le> tokensLeft y" by auto
  ultimately show ?case by simp
next
  case (11 lineNumber p x xa xb y x2 xc ya x2a xd yb xe yc)
  from "11"(1) have "Type (peekToken p) \<noteq> EOF" by (auto simp: peekTokenIs_def)
  from tokensLeft_nextToken_less[OF tokensLeft_pos_peek[OF this]] "11"(2)
  have "tokensLeft x < tokensLeft p" by simp
  moreover from expectPeek_tokensLeft[of LPAREN x xb y] "11"(4)
  have "tokensLeft y \<le> tokensLeft x" by simp
  moreover from partsLoop_tokensLeft[OF "11"(7)] "11"(8) tokensLeft_nextToken_le[of y]
  have "tokensLeft ya \<le> tokensLeft y" by auto
  moreover from "11"(9,10,12)
  have "parseIfOperator (setOperand (strings_Join xc '' '') xa) (nextToken ya) = Some (xd, xe, yc)"
    by auto
  from parseIfOperator_tokensLeft[OF this] tokensLeft_nextToken_le[of ya]
  have "tokensLeft yc \<le> tokensLeft ya" by simp
  ultimately show ?case by simp
qed


termination parseBlockStatement
  by (rule parse_total)

lemmas parse_simps =
  parseBlockStatement.simps blockLoop.simps parseStatement.simps parseIfStatement.simps
  elifLoop.simps parseIfConditionExpression.simps

declare parse_simps [simp del]

lemmas parse_tokensLeft = parse_dom_tokensLeft[OF parse_total[THEN spec], rule_format]


section \<open>Top-level statements and programs\<close>

lemma tokensLeft_nextToken_trans2:
  "n \<le> tokensLeft (nextToken p) \<Longrightarrow> n \<le> tokensLeft p"
  using tokensLeft_nextToken_le[of p] by simp

text \<open>\<^verbatim>\<open>parseScriptStatement\<close> (parser.go, lines 120 to 139).\<close>

definition parseScriptStatement :: "parser \<Rightarrow> (statement option \<times> parser) option" where
  "parseScriptStatement p =
     (case expectPeek IDENT p of
        (False, p1) \<Rightarrow> Some (None, p1)
      | (True, p1) \<Rightarrow>
          let name = \<lparr>idToken = curToken p1, idValue = Literal (curToken p1)\<rparr>
          in (case expectPeek LBRACE p1 of
                (False, p2) \<Rightarrow> Some (None, p2)
              | (True, p2) \<Rightarrow>
                  (case parseBlockStatement (nextToken p2) of
                     None \<Rightarrow> None
                   | Some (body, p3) \<Rightarrow>
                       Some (Some (ScriptStatement (curToken p) name body), p3))))"

text \<open>\<^verbatim>\<open>parseRawStatement\<close> (parser.go, lines 239 to 259).\<close>

definition parseRawStatement :: "parser \<Rightarrow> statement option \<times> parser" where
  "parseRawStatement p =
     (case expectPeek IDENT p of
        (False, p1) \<Rightarrow> (None, p1)
      | (True, p1) \<Rightarrow>
          let name = \<lparr>idToken = curToken p1, idValue = Literal (curToken p1)\<rparr>
          in (case expectPeek RAWSTRING p1 of
                (False, p2) \<Rightarrow> (None, p2)
              | (True, p2) \<Rightarrow>
                  (Some (RawStatement (curToken p) (Type (curToken p) = RAWGLOBAL) name
                     (Literal (curToken p2))), p2)))"

text \<open>\<^verbatim>\<open>parseTopLevelStatement\<close> (parser.go, lines 99 to 118).\<close>

definition parseTopLevelStatement :: "parser \<Rightarrow> (statement option \<times> parser) option" where
  "parseTopLevelStatement p =
     (if Type (curToken p) = SCRIPT then
        (case parseScriptStatement p of
           None \<Rightarrow> None
         | Some (None, p1) \<Rightarrow> Some (None, p1)
         | Some (Some statement, p1) \<Rightarrow> Some (Some statement, p1))
      else if Type (curToken p) = RAW \<or> Type (curToken p) = RAWGLOBAL then
        (case parseRawStatement p of
           (None, p1) \<Rightarrow> Some (None, p1)
         | (Some statement, p1) \<Rightarrow> Some (Some statement, p1))
      else
        Some (None,
          addError (''line '' @ showInt (LineNumber (curToken p)) @
            '': could not parse top-level statement for '' @ sq @ Literal (curToken p) @ sq) p))"

lemma parseScriptStatement_tokensLeft:
  "parseScriptStatement p = Some (r, p') \<Longrightarrow> tokensLeft p' \<le> tokensLeft p"
  by (auto simp: parseScriptStatement_def Let_def
           split: prod.splits bool.splits option.splits
           dest!: expectPeek_tokensLeft parse_tokensLeft(1) tokensLeft_nextToken_trans2)

lemma parseRawStatement_tokensLeft:
  "parseRawStatement p = (r, p') \<Longrightarrow> tokensLeft p' \<le> tokensLeft p"
  by (auto simp: parseRawStatement_def Let_def
           split: prod.splits bool.splits option.splits
           dest!: expectPeek_tokensLeft)

lemma parseTopLevelStatement_tokensLeft:
  "parseTopLevelStatement p = Some (r, p') \<Longrightarrow> tokensLeft p' \<le> tokensLeft p"
  by (auto simp: parseTopLevelStatement_def
           split: if_splits prod.splits option.splits
           dest: parseScriptStatement_tokensLeft parseRawStatement_tokensLeft)

text \<open>
  The first loop of \<^verbatim>\<open>ParseProgram\<close> (parser.go, lines 75 to 87). The result \<open>None\<close> in the
  first component is the \<^verbatim>\<open>return nil\<close> taken once the error list is not empty (the
  errors are printed on the way, which leaves the parser as it is); otherwise the loop hands
  back the program it has built.
\<close>

function programLoop :: "program \<Rightarrow> parser \<Rightarrow> (program option \<times> parser) option" where
  "programLoop prog p =
     (if Type (curToken p) \<noteq> EOF then
        (case parseTopLevelStatement p of
           None \<Rightarrow> None
         | Some (statement, p1) \<Rightarrow>
             if length (errors p1) > 0 then Some (None, p1)
             else
               programLoop
                 (case statement of
                    None \<Rightarrow> prog
                  | Some s \<Rightarrow> prog\<lparr>TopLevelStatements := TopLevelStatements prog @ [s]\<rparr>)
                 (nextToken p1))
      else Some (Some prog, p))"
  by pat_completeness auto
termination
proof (relation "measure (\<lambda>(prog, p). tokensLeft p)", goal_cases)
  case 1
  then show ?case by simp
next
  case (2 prog p x2 x y)
  then have "tokensLeft y \<le> tokensLeft p"
    using parseTopLevelStatement_tokensLeft[of p x y] by simp
  from tokensLeft_step[OF this tokensLeft_pos_cur[OF "2"(1)]] show ?case by simp
qed

declare programLoop.simps [simp del]

text \<open>
  \<^verbatim>\<open>ParseProgram\<close> (parser.go, lines 68 to 97): the implicit texts are cleared, the
  statements are parsed, and the texts found are appended to the program under their
  labels. The result pairs the returned pointer with the parser, whose error list the
  caller reads with \<^verbatim>\<open>Errors\<close>.
\<close>

definition ParseProgram :: "parser \<Rightarrow> (program option \<times> parser) option" where
  "ParseProgram p =
     (case programLoop \<lparr>TopLevelStatements = [], Texts = []\<rparr> (p\<lparr>implicitTexts := []\<rparr>) of
        None \<Rightarrow> None
      | Some (None, p1) \<Rightarrow> Some (None, p1)
      | Some (Some prog, p1) \<Rightarrow>
          Some (Some (prog\<lparr>Texts := Texts prog @
                   map (\<lambda>(i, text). \<lparr>Name = getImplicitTextLabel i, Value = text\<rparr>)
                     (enumerate 0 (implicitTexts p1))\<rparr>),
                p1))"

section \<open>Concrete inputs\<close>

definition tk :: "tokenType \<Rightarrow> string \<Rightarrow> int \<Rightarrow> token" where
  "tk ty lit ln = \<lparr>Type = ty, Literal = lit, LineNumber = ln\<rparr>"

definition lexerOf :: "token list \<Rightarrow> int \<Rightarrow> lexer" where
  "lexerOf ts ln = \<lparr>pending = ts, eofLine = ln\<rparr>"

lemmas state_defs =
  New_def nextToken_def NextToken_def eofToken_def zeroToken_def lexerOf_def tk_def
  peekTokenIs_def

section \<open>Properties of command statements\<close>

text \<open>
  Claim C10. A command whose name is not directly followed by an opening parenthesis is
  returned as a command statement named after the current token, with no arguments, and
  the parser is left exactly as it was: nothing beyond the identifier is consumed.
\<close>

theorem command_without_parenthesis:
  "Type (peekToken p) \<noteq> LPAREN \<Longrightarrow>
     parseCommandStatement p =
       (Some (CommandStatement (curToken p)
          \<lparr>idToken = curToken p, idValue = Literal (curToken p)\<rparr> []), p)"
  by (simp add: parseCommandStatement_def peekTokenIs_def)

theorem command_without_parenthesis_witness:
  "Type (peekToken (New (lexerOf [tk IDENT ''lock'' 3, tk IDENT ''faceplayer'' 4] 5))) \<noteq> LPAREN \<and>
   parseCommandStatement (New (lexerOf [tk IDENT ''lock'' 3, tk IDENT ''faceplayer'' 4] 5)) =
     (Some (CommandStatement (tk IDENT ''lock'' 3)
        \<lparr>idToken = tk IDENT ''lock'' 3, idValue = ''lock''\<rparr> []),
      New (lexerOf [tk IDENT ''lock'' 3, tk IDENT ''faceplayer'' 4] 5))"
proof -
  have h: "Type (peekToken (New (lexerOf [tk IDENT ''lock'' 3, tk IDENT ''faceplayer'' 4] 5))) \<noteq> LPAREN"
    by (simp add: state_defs)
  show ?thesis
    using h command_without_parenthesis [OF h] by (simp add: state_defs)
qed

section \<open>The program and the error list\<close>

lemma errors_nextToken [simp]: "errors (nextToken p) = errors p"
  by (simp add: nextToken_def split: prod.splits)

lemma errors_New [simp]: "errors (New lx) = []"
  by (simp add: New_def)

lemma programLoop_errors:
  "errors p = [] \<Longrightarrow> programLoop prog p = Some (r, p') \<Longrightarrow> (r = None) = (errors p' \<noteq> [])"
proof (induction prog p rule: programLoop.induct)
  case (1 prog p)
  show ?case
  proof (cases "Type (curToken p) = EOF")
    case True
    with "1.prems" show ?thesis by (auto simp: programLoop.simps)
  next
    case False
    then obtain statement p1 where ts: "parseTopLevelStatement p = Some (statement, p1)"
      using "1.prems"(2) by (auto simp: programLoop.simps split: option.splits)
    show ?thesis
    proof (cases "errors p1 = []")
      case True
      with False ts "1.prems"(2) "1.IH"[OF False ts refl] show ?thesis
        by (auto simp: programLoop.simps[of prog p])
    next
      case e: False
      with False ts "1.prems"(2) show ?thesis by (auto simp: programLoop.simps[of prog p])
    qed
  qed
qed

text \<open>
  Where \<^verbatim>\<open>ParseProgram\<close> of a parser made by \<^verbatim>\<open>New\<close> returns, the program it returns is
  \<^verbatim>\<open>nil\<close> exactly when the error list it leaves is not empty.
\<close>

lemma returned_program_nil_iff_errors:
  "ParseProgram (New lx) = Some (prog, p') \<Longrightarrow> (prog = None) = (Errors p' \<noteq> [])"
  using programLoop_errors
    [of "(New lx)\<lparr>implicitTexts := []\<rparr>" "\<lparr>TopLevelStatements = [], Texts = []\<rparr>"]
  by (auto simp: ParseProgram_def Errors_def split: option.splits)

section \<open>Unclosed conditions\<close>

text \<open>The parser has no closing parenthesis in front of it, and none is still to come.\<close>

definition noClosingParen :: "parser \<Rightarrow> bool" where
  "noClosingParen p =
     (Type (curToken p) \<noteq> RPAREN \<and> Type (peekToken p) \<noteq> RPAREN \<and>
      list_all (\<lambda>t. Type t \<noteq> RPAREN) (pending (l p)))"

lemma noClosingParen_nextToken: "noClosingParen p \<Longrightarrow> noClosingParen (nextToken p)"
  by (cases "pending (l p)")
     (auto simp: noClosingParen_def nextToken_def NextToken_def eofToken_def)

lemma partsLoop_returns_closing:
  assumes "partsLoop parts p = Some r"
  shows "\<not> noClosingParen p"
proof (rule partsLoop.raw_induct[OF _ assms])
  fix f parts p r
  assume IH: "\<And>parts p r. f parts p = Some r \<Longrightarrow> \<not> noClosingParen p"
    and step: "(if Type (curToken p) \<noteq> RPAREN
                then f (parts @ [Literal (curToken p)]) (nextToken p)
                else Some (parts, p)) = Some r"
  show "\<not> noClosingParen p"
  proof (cases "Type (curToken p) = RPAREN")
    case True
    then show ?thesis by (simp add: noClosingParen_def)
  next
    case False
    with step have "f (parts @ [Literal (curToken p)]) (nextToken p) = Some r" by simp
    from IH[OF this] noClosingParen_nextToken show ?thesis by blast
  qed
qed

lemma partsLoop_diverges: "noClosingParen p \<Longrightarrow> partsLoop parts p = None"
  using partsLoop_returns_closing by (cases "partsLoop parts p") auto

text \<open>
  The token streams of \<^verbatim>\<open>script Main { if (var(VAR_1\<close> and of
  \<^verbatim>\<open>script Main { if (var(VAR_1) == 5\<close>, each cut off by the end of the input.
\<close>

definition unclosedOperand :: "token list" where
  "unclosedOperand =
     [tk SCRIPT ''script'' 1, tk IDENT ''Main'' 1, tk LBRACE ''{'' 1,
      tk IF ''if'' 2, tk LPAREN ''('' 2, tk VAR ''var'' 2, tk LPAREN ''('' 2,
      tk IDENT ''VAR_1'' 2]"

definition unclosedComparison :: "token list" where
  "unclosedComparison =
     [tk SCRIPT ''script'' 1, tk IDENT ''Main'' 1, tk LBRACE ''{'' 1,
      tk IF ''if'' 2, tk LPAREN ''('' 2, tk VAR ''var'' 2, tk LPAREN ''('' 2,
      tk IDENT ''VAR_1'' 2, tk RPAREN '')'' 2, tk EQ ''=='' 2, tk IDENT ''5'' 2]"

text \<open>
  Claim C5. The claim asks that parsing a condition whose operand or comparison value is
  never closed before the end of the input still ends with an error. On both streams the
  parser does not return at all: the loops that gather the operand and the comparison
  value go on reading the end-of-input token for ever.
\<close>

theorem unclosed_condition_never_returns:
  "ParseProgram (New (lexerOf unclosedOperand 3)) = None \<and>
   ParseProgram (New (lexerOf unclosedComparison 3)) = None"
proof -
  have "noClosingParen \<lparr>l = \<lparr>pending = [], eofLine = 3\<rparr>,
      curToken = tk IDENT ''VAR_1'' 2,
      peekToken = \<lparr>Type = EOF, Literal = [], LineNumber = 3\<rparr>, errors = [],
      implicitTexts = []\<rparr>"
    by (simp add: noClosingParen_def tk_def)
  from partsLoop_diverges[OF this]
  have a: "ParseProgram (New (lexerOf unclosedOperand 3)) = None"
    by (simp add: unclosedOperand_def ParseProgram_def programLoop.simps
          parseTopLevelStatement_def parseScriptStatement_def parse_simps expectPeek_def
          peekError_def state_defs)
  have op: "partsLoop []
      \<lparr>l = \<lparr>pending = [tk EQ ''=='' 2, tk IDENT ''5'' 2], eofLine = 3\<rparr>,
       curToken = tk IDENT ''VAR_1'' 2, peekToken = tk RPAREN '')'' 2, errors = [],
       implicitTexts = []\<rparr> =
    Some ([''VAR_1''],
      \<lparr>l = \<lparr>pending = [tk IDENT ''5'' 2], eofLine = 3\<rparr>,
       curToken = tk RPAREN '')'' 2, peekToken = tk EQ ''=='' 2, errors = [],
       implicitTexts = []\<rparr>)"
    by (simp add: partsLoop.simps state_defs)
  have "noClosingParen \<lparr>l = \<lparr>pending = [], eofLine = 3\<rparr>,
      curToken = tk IDENT ''5'' 2,
      peekToken = \<lparr>Type = EOF, Literal = [], LineNumber = 3\<rparr>, errors = [],
      implicitTexts = []\<rparr>"
    by (simp add: noClosingParen_def tk_def)
  from partsLoop_diverges[OF this] op
  have b: "ParseProgram (New (lexerOf unclosedComparison 3)) = None"
    by (simp add: unclosedComparison_def ParseProgram_def programLoop.simps
          parseTopLevelStatement_def parseScriptStatement_def parse_simps expectPeek_def
          peekError_def parseIfOperator_def parseIfVarOperator_def state_defs)
  from a b show ?thesis by simp
qed

section \<open>Line numbers in error messages\<close>

text \<open>The error list that a call leaves, when the call returns.\<close>

definition errorsOf :: "('a option \<times> parser) option \<Rightarrow> string list option" where
  "errorsOf r = map_option (\<lambda>x. Errors (snd x)) r"

text \<open>
  A message is line-numbered when it starts with \<^verbatim>\<open>line\<close>, a space, decimal digits, a colon
  and a space, as \<^verbatim>\<open>fmt.Sprintf("line %d: ...")\<close> writes it.
\<close>

definition lineNumbered :: "string \<Rightarrow> bool" where
  "lineNumbered msg =
     (let rest = drop 5 msg;
          digits = takeWhile (\<lambda>c. c \<in> set ''0123456789'') rest
      in take 5 msg = ''line '' \<and> digits \<noteq> [] \<and> take 2 (drop (length digits) rest) = '': '')"

lemma lineNumbered_example: "lineNumbered ''line 12: missing closing curly brace for block statement''"
  by (simp add: lineNumbered_def)

lemmas eval_defs =
  ParseProgram_def programLoop.simps parseTopLevelStatement_def parseScriptStatement_def
  parseRawStatement_def parse_simps parseCommandStatement_def commandArgsLoop.simps
  parseIfOperator_def parseIfVarOperator_def parseIfFlagOperator_def
  expectPeek_def peekError_def addError_def getImplicitTextLabel_def
  showInt_def showNat.simps digitChar_def Errors_def state_defs

text \<open>
  An argument list that the end of the input cuts off is reported with the line of the
  command's own token.
\<close>

lemma commandArgsLoop_unterminated:
  "commandArgsLoop tok name args argParts n p = (None, p') \<Longrightarrow>
     errors p' = errors p @
       [''line '' @ showInt (LineNumber tok) @ '': missing closing parenthesis for command '' @
        sq @ Literal (idToken name) @ sq]"
proof (induction tok name args argParts n p rule: commandArgsLoop.induct)
  case (1 tok name args argParts numOpenParens p)
  note eq = "1.prems"[unfolded commandArgsLoop.simps[of tok name args argParts numOpenParens p]]
  show ?case
  proof (cases "Type (curToken p) = RPAREN \<and> numOpenParens = 0")
    case True
    with eq show ?thesis by simp
  next
    case out: False
    show ?thesis
    proof (cases "Type (curToken p) = EOF")
      case True
      with out eq show ?thesis by (auto simp: addError_def)
    next
      case noeof: False
      consider (comma) "Type (curToken p) = COMMA"
        | (lparen) "Type (curToken p) = LPAREN"
        | (rparen) "Type (curToken p) = RPAREN"
        | (string) "Type (curToken p) = STRING"
        | (other) "Type (curToken p) \<notin> {COMMA, LPAREN, RPAREN, STRING}"
        by auto
      then show ?thesis
      proof cases
        case comma
        with out noeof eq "1.IH"(1)[OF out noeof] show ?thesis by simp
      next
        case lparen
        with out noeof eq "1.IH"(2)[OF out noeof] show ?thesis by simp
      next
        case rparen
        with out noeof eq "1.IH"(3)[OF out noeof] show ?thesis by simp
      next
        case string
        with out noeof eq "1.IH"(4)[OF out noeof] show ?thesis by simp
      next
        case other
        with out noeof eq "1.IH"(5)[OF out noeof] show ?thesis by simp
      qed
    qed
  qed
qed

text \<open>
  The token streams of \<^verbatim>\<open>script Main {\<close> and of \<^verbatim>\<open>script Main {\<close> followed by \<^verbatim>\<open>lock\<close> on
  the second line, each on an input that ends on line 4.
\<close>

definition unterminatedEmptyBlock :: "token list" where
  "unterminatedEmptyBlock = [tk SCRIPT ''script'' 1, tk IDENT ''Main'' 1, tk LBRACE ''{'' 1]"

definition unterminatedBlock :: "token list" where
  "unterminatedBlock =
     [tk SCRIPT ''script'' 1, tk IDENT ''Main'' 1, tk LBRACE ''{'' 1, tk IDENT ''lock'' 2]"

text \<open>
  Claim C7. The claim asks that a block left open at the end of the input is reported with
  the line of the token that opened it. \<^verbatim>\<open>parseBlockStatement\<close> is called after the
  opening brace has been passed, so the token it keeps is the first token inside the block:
  for the empty block that is the end-of-input token itself and the message carries the
  line of the end of the input (4, where the brace is on line 1); for the block with one
  command it carries the line of that command (2).
\<close>

theorem unterminated_block_line:
  "errorsOf (ParseProgram (New (lexerOf unterminatedEmptyBlock 4))) =
     Some [''line 4: missing closing curly brace for block statement''] \<and>
   errorsOf (ParseProgram (New (lexerOf unterminatedBlock 4))) =
     Some [''line 2: missing closing curly brace for block statement'']"
  by (simp add: errorsOf_def unterminatedEmptyBlock_def unterminatedBlock_def eval_defs)

text \<open>The token stream of \<^verbatim>\<open>script { }\<close>: a script without a name.\<close>

definition scriptWithoutName :: "token list" where
  "scriptWithoutName = [tk SCRIPT ''script'' 1, tk LBRACE ''{'' 1, tk RBRACE ''}'' 2]"

text \<open>
  Claim C8. The claim asks that every message in the error list carries a line number.
  The message of \<^verbatim>\<open>peekError\<close> has none, and for a script without a name it is the only
  message that the caller receives.
\<close>

theorem peek_error_without_line_number:
  "errorsOf (ParseProgram (New (lexerOf scriptWithoutName 3))) =
     Some [''expected next token to be type IDENT, got { instead''] \<and>
   \<not> lineNumbered ''expected next token to be type IDENT, got { instead''"
  by (simp add: errorsOf_def scriptWithoutName_def lineNumbered_def eval_defs)

section \<open>An error followed by a condition that is never closed\<close>

text \<open>
  The token stream of \<^verbatim>\<open>script Main { if (flag(FLAG_A) == TRUE) { , elif (var(VAR_B\<close>, cut
  off by the end of the input, and the parser when \<^verbatim>\<open>parseIfStatement\<close> has passed the
  opening parenthesis of the first condition.
\<close>

definition errorThenUnclosed :: "token list" where
  "errorThenUnclosed =
     [tk SCRIPT ''script'' 1, tk IDENT ''Main'' 1, tk LBRACE ''{'' 1,
      tk IF ''if'' 2, tk LPAREN ''('' 2, tk FLAG ''flag'' 2, tk LPAREN ''('' 2,
      tk IDENT ''FLAG_A'' 2, tk RPAREN '')'' 2, tk EQ ''=='' 2, tk TRUE ''TRUE'' 2,
      tk RPAREN '')'' 2, tk LBRACE ''{'' 2,
      tk COMMA '','' 3,
      tk ELSEIF ''elif'' 4, tk LPAREN ''('' 4, tk VAR ''var'' 4, tk LPAREN ''('' 4,
      tk IDENT ''VAR_B'' 4]"

definition atFirstCondition :: parser where
  "atFirstCondition =
     nextToken (nextToken (nextToken (nextToken (New (lexerOf errorThenUnclosed 5)))))"

text \<open>
  Claim C3. The claim asks that \<^verbatim>\<open>ParseProgram\<close> returns \<^verbatim>\<open>nil\<close> whenever the error list
  is not empty. On this stream the comma in the block of the first condition is recorded
  as an error, and the condition is still returned (with no body); the loop over the elif
  conditions goes on to the second condition, whose operand is never closed, and
  \<^verbatim>\<open>ParseProgram\<close> does not return at all.
\<close>

theorem error_then_never_returns:
  "errorsOf (parseIfConditionExpression 2 atFirstCondition) =
     Some [''line 3: could not parse statement for '' @ sq @ '','' @ sq @ [CHR 0x0A]] \<and>
   ParseProgram (New (lexerOf errorThenUnclosed 5)) = None"
proof -
  have op: "partsLoop []
      \<lparr>l = \<lparr>pending = [tk EQ ''=='' 2, tk TRUE ''TRUE'' 2, tk RPAREN '')'' 2, tk LBRACE ''{'' 2,
             tk COMMA '','' 3, tk ELSEIF ''elif'' 4, tk LPAREN ''('' 4, tk VAR ''var'' 4,
             tk LPAREN ''('' 4, tk IDENT ''VAR_B'' 4], eofLine = 5\<rparr>,
       curToken = tk IDENT ''FLAG_A'' 2, peekToken = tk RPAREN '')'' 2, errors = [],
       implicitTexts = []\<rparr> =
    Some ([''FLAG_A''],
      \<lparr>l = \<lparr>pending = [tk TRUE ''TRUE'' 2, tk RPAREN '')'' 2, tk LBRACE ''{'' 2,
             tk COMMA '','' 3, tk ELSEIF ''elif'' 4, tk LPAREN ''('' 4, tk VAR ''var'' 4,
             tk LPAREN ''('' 4, tk IDENT ''VAR_B'' 4], eofLine = 5\<rparr>,
       curToken = tk RPAREN '')'' 2, peekToken = tk EQ ''=='' 2, errors = [],
       implicitTexts = []\<rparr>)"
    by (simp add: partsLoop.simps state_defs)
  have a: "errorsOf (parseIfConditionExpression 2 atFirstCondition) =
     Some [''line 3: could not parse statement for '' @ sq @ '','' @ sq @ [CHR 0x0A]]"
    using op
    by (simp add: errorsOf_def atFirstCondition_def errorThenUnclosed_def eval_defs)
  have "noClosingParen \<lparr>l = \<lparr>pending = [], eofLine = 5\<rparr>,
      curToken = tk IDENT ''VAR_B'' 4,
      peekToken = \<lparr>Type = EOF, Literal = [], LineNumber = 5\<rparr>,
      errors = [''line 3: could not parse statement for '' @ sq @ '','' @ sq @ [CHR 0x0A]],
      implicitTexts = []\<rparr>"
    by (simp add: noClosingParen_def tk_def)
  from partsLoop_diverges[OF this] op
  have b: "ParseProgram (New (lexerOf errorThenUnclosed 5)) = None"
    by (simp add: errorThenUnclosed_def eval_defs)
  from a b show ?thesis by simp
qed


section \<open>The implicit texts of a program\<close>

text \<open>
  The entries that the second loop of \<^verbatim>\<open>ParseProgram\<close> makes of a list of implicit texts:
  the text at index \<open>i\<close> under the label of \<open>i\<close>.
\<close>

definition implicitTextEntries :: "string list \<Rightarrow> Text list" where
  "implicitTextEntries texts =
     map (\<lambda>i. \<lparr>Name = getImplicitTextLabel i, Value = texts ! i\<rparr>) [0..<length texts]"

lemma enumerate_entries:
  "map (\<lambda>(i, text). \<lparr>Name = getImplicitTextLabel i, Value = text\<rparr>) (enumerate 0 texts) =
     implicitTextEntries texts"
  by (auto simp: implicitTextEntries_def enumerate_eq_zip intro!: nth_equalityI)

lemma programLoop_Texts:
  "programLoop prog p = Some (Some prog', p') \<Longrightarrow> Texts prog' = Texts prog"
proof (induction prog p rule: programLoop.induct)
  case (1 prog p)
  show ?case
  proof (cases "Type (curToken p) = EOF")
    case True
    with "1.prems" show ?thesis by (auto simp: programLoop.simps)
  next
    case False
    then obtain statement p1 where ts: "parseTopLevelStatement p = Some (statement, p1)"
      using "1.prems" by (auto simp: programLoop.simps split: option.splits)
    with False "1.prems" have e: "\<not> 0 < length (errors p1)"
      by (auto simp: programLoop.simps[of prog p] split: if_splits)
    with False ts "1.prems" "1.IH"[OF False ts refl e] show ?thesis
      by (cases statement) (auto simp: programLoop.simps[of prog p])
  qed
qed

text \<open>The texts of the program that a call returns.\<close>

definition textsOf :: "(program option \<times> parser) option \<Rightarrow> Text list option" where
  "textsOf r = Option.bind r (\<lambda>x. map_option Texts (fst x))"

text \<open>
  The token stream of a script whose one command, \<^verbatim>\<open>msgbox("Hello", "World")\<close>, holds two
  string literals.
\<close>

definition msgboxScript :: "token list" where
  "msgboxScript =
     [tk SCRIPT ''script'' 1, tk IDENT ''Main'' 1, tk LBRACE ''{'' 1,
      tk IDENT ''msgbox'' 2, tk LPAREN ''('' 2, tk STRING ''Hello'' 2, tk COMMA '','' 2,
      tk STRING ''World'' 2, tk RPAREN '')'' 2,
      tk RBRACE ''}'' 3]"

text \<open>
  Claim C9. \<^verbatim>\<open>ParseProgram\<close> clears the implicit texts before it parses: whatever the
  list held from an earlier call, the call behaves as if it had been empty, and the texts of
  the program it returns are the texts found during this call, labelled from \<open>Text_0\<close>
  upwards in the order of the list.
\<close>

theorem implicit_texts_cleared:
  "ParseProgram (p\<lparr>implicitTexts := previous\<rparr>) = ParseProgram p \<and>
   (ParseProgram p = Some (Some prog, p') \<longrightarrow>
      Texts prog = implicitTextEntries (implicitTexts p'))"
proof
  show "ParseProgram (p\<lparr>implicitTexts := previous\<rparr>) = ParseProgram p"
    by (simp add: ParseProgram_def)
  show "ParseProgram p = Some (Some prog, p') \<longrightarrow>
          Texts prog = implicitTextEntries (implicitTexts p')"
    by (auto simp: ParseProgram_def enumerate_entries
             split: option.splits dest!: programLoop_Texts)
qed

theorem implicit_texts_cleared_witness:
  "ParseProgram ((New (lexerOf msgboxScript 4))\<lparr>implicitTexts := [''Stale'']\<rparr>) =
     ParseProgram (New (lexerOf msgboxScript 4)) \<and>
   textsOf (ParseProgram ((New (lexerOf msgboxScript 4))\<lparr>implicitTexts := [''Stale'']\<rparr>)) =
     Some [\<lparr>Name = ''Text_0'', Value = ''Hello''\<rparr>, \<lparr>Name = ''Text_1'', Value = ''World''\<rparr>]"
proof -
  have "\<exists>prog p'. ParseProgram (New (lexerOf msgboxScript 4)) = Some (Some prog, p') \<and>
          implicitTexts p' = [''Hello'', ''World'']"
    by (simp add: msgboxScript_def eval_defs)
  then obtain prog p' where
    h: "ParseProgram (New (lexerOf msgboxScript 4)) = Some (Some prog, p')" and
    t: "implicitTexts p' = [''Hello'', ''World'']"
    by blast
  have e: "implicitTextEntries [''Hello'', ''World''] =
      [\<lparr>Name = ''Text_0'', Value = ''Hello''\<rparr>, \<lparr>Name = ''Text_1'', Value = ''World''\<rparr>]"
    by (simp add: implicitTextEntries_def getImplicitTextLabel_def showNat.simps digitChar_def
          upt_rec)
  from implicit_texts_cleared
         [where p = "New (lexerOf msgboxScript 4)" and previous = "[''Stale'']"
            and prog = prog and p' = p'] h t e
  show ?thesis by (simp add: textsOf_def)
qed

section \<open>The arguments of a command\<close>

text \<open>
  The tokens in front of the parser: the current one, the next one, and those that the
  lexer has not handed out yet.
\<close>

definition upcoming :: "parser \<Rightarrow> token list" where
  "upcoming p = curToken p # peekToken p # pending (l p)"

lemma prefix_upcoming_step:
  assumes "prefix (t # ts) (upcoming p)"
  shows "curToken p = t \<and> prefix ts (upcoming (nextToken p))"
proof -
  from assms have c: "curToken p = t" and a: "prefix ts (peekToken p # pending (l p))"
    by (auto simp: upcoming_def)
  have "prefix (peekToken p # pending (l p)) (upcoming (nextToken p))"
    by (cases "pending (l p)") (auto simp: upcoming_def nextToken_def NextToken_def)
  with a c show ?thesis using prefix_order.trans by blast
qed

lemma upcoming_implicitTexts [simp]: "upcoming (p\<lparr>implicitTexts := x\<rparr>) = upcoming p"
  by (simp add: upcoming_def)

text \<open>
  The tokens \<open>body\<close>, read with \<open>d\<close> parentheses open, reach the end of the input nowhere,
  close a parenthesis only where one is open, and leave none open: a closing parenthesis
  that follows them is the one that matches.
\<close>

fun enclosed :: "int \<Rightarrow> token list \<Rightarrow> bool" where
  "enclosed d [] = (d = 0)"
| "enclosed d (t # ts) =
     (Type t \<noteq> EOF \<and>
      (if Type t = LPAREN then enclosed (d + 1) ts
       else if Type t = RPAREN then d \<noteq> 0 \<and> enclosed (d - 1) ts
       else enclosed d ts))"

text \<open>
  What the claims say of the arguments, as functions of the tokens between the
  parentheses. Every string literal is replaced by the label of its rank, counted from \<open>k\<close>,
  the number of implicit texts found before.
\<close>

fun relabel :: "nat \<Rightarrow> token list \<Rightarrow> token list" where
  "relabel k [] = []"
| "relabel k (t # ts) =
     (if Type t = STRING then t\<lparr>Literal := getImplicitTextLabel k\<rparr> # relabel (Suc k) ts
      else t # relabel k ts)"

text \<open>The values of the string literals among the tokens, in their order.\<close>

definition stringLiterals :: "token list \<Rightarrow> string list" where
  "stringLiterals ts = map Literal (filter (\<lambda>t. Type t = STRING) ts)"

text \<open>The tokens are cut at every comma, whatever parentheses surround it.\<close>

function splitCommas :: "token list \<Rightarrow> token list list" where
  "splitCommas ts =
     takeWhile (\<lambda>t. Type t \<noteq> COMMA) ts #
       (case dropWhile (\<lambda>t. Type t \<noteq> COMMA) ts of
          [] \<Rightarrow> []
        | comma # rest \<Rightarrow> splitCommas rest)"
  by pat_completeness auto
termination
proof (relation "measure length", goal_cases)
  case 1
  then show ?case by simp
next
  case (2 ts comma rest)
  from length_dropWhile_le[of "\<lambda>t. Type t \<noteq> COMMA" ts] 2 show ?case by simp
qed

declare splitCommas.simps [simp del]

lemma splitCommas_Nil [simp]: "splitCommas [] = [[]]"
  by (simp add: splitCommas.simps)

lemma splitCommas_comma [simp]:
  "Type t = COMMA \<Longrightarrow> splitCommas (t # ts) = [] # splitCommas ts"
  by (simp add: splitCommas.simps[of "t # ts"])

lemma splitCommas_other [simp]:
  "Type t \<noteq> COMMA \<Longrightarrow>
     splitCommas (t # ts) = (t # hd (splitCommas ts)) # tl (splitCommas ts)"
proof -
  assume t: "Type t \<noteq> COMMA"
  have a: "splitCommas (t # ts) =
      (t # takeWhile (\<lambda>t. Type t \<noteq> COMMA) ts) #
        (case dropWhile (\<lambda>t. Type t \<noteq> COMMA) ts of [] \<Rightarrow> [] | comma # rest \<Rightarrow> splitCommas rest)"
    using t by (simp add: splitCommas.simps[of "t # ts"])
  have b: "splitCommas ts =
      takeWhile (\<lambda>t. Type t \<noteq> COMMA) ts #
        (case dropWhile (\<lambda>t. Type t \<noteq> COMMA) ts of [] \<Rightarrow> [] | comma # rest \<Rightarrow> splitCommas rest)"
    by (rule splitCommas.simps)
  have "hd (splitCommas ts) = takeWhile (\<lambda>t. Type t \<noteq> COMMA) ts"
    by (subst b) simp
  moreover have "tl (splitCommas ts) =
      (case dropWhile (\<lambda>t. Type t \<noteq> COMMA) ts of [] \<Rightarrow> [] | comma # rest \<Rightarrow> splitCommas rest)"
    by (subst b) simp
  ultimately show ?thesis by (simp add: a)
qed

lemma splitCommas_nonempty [simp]: "splitCommas ts \<noteq> []"
  by (subst splitCommas.simps) simp

text \<open>
  An argument is the literals of its tokens, joined by single spaces. The arguments of a
  command are those of the groups between the commas; a last group without tokens is not
  an argument.
\<close>

definition argText :: "token list \<Rightarrow> string" where
  "argText ts = strings_Join (map Literal ts) '' ''"

definition commandArgs :: "nat \<Rightarrow> token list \<Rightarrow> string list" where
  "commandArgs k body =
     (let groups = splitCommas (relabel k body)
      in map argText (if last groups = [] then butlast groups else groups))"


lemma implicitTexts_nextToken [simp]: "implicitTexts (nextToken p) = implicitTexts p"
  by (simp add: nextToken_def split: prod.splits)

lemma funpow_nextToken_implicitTexts:
  "(nextToken ^^ n) (p\<lparr>implicitTexts := x\<rparr>) = ((nextToken ^^ n) p)\<lparr>implicitTexts := x\<rparr>"
  by (induction n) simp_all

lemma splitCommas_cases:
  obtains g gs where "splitCommas ts = g # gs"
  by (cases "splitCommas ts") simp_all

text \<open>
  The loop on the tokens \<open>body\<close> of an argument list that the token \<open>close\<close> ends.
\<close>

lemma commandArgsLoop_spec:
  assumes "prefix (body @ [close]) (upcoming p)" "Type close = RPAREN" "enclosed d body"
    and "splitCommas (relabel (length (implicitTexts p)) body) = g # gs"
  shows "commandArgsLoop tok name args parts d p =
     (Some (args @ map (\<lambda>x. strings_Join x '' '')
                     (butlast ((parts @ map Literal g) # map (map Literal) gs)),
            last ((parts @ map Literal g) # map (map Literal) gs)),
      ((nextToken ^^ length body) p)
         \<lparr>implicitTexts := implicitTexts p @ stringLiterals body\<rparr>)"
  using assms
proof (induction body arbitrary: args parts d p g gs)
  case Nil
  then have "curToken p = close" by (auto simp: upcoming_def)
  with Nil.prems have "commandArgsLoop tok name args parts d p = (Some (args, parts), p)"
    by (subst commandArgsLoop.simps) simp
  with Nil.prems(4) show ?case by (auto simp: stringLiterals_def)
next
  case (Cons t body)
  from prefix_upcoming_step[of t "body @ [close]" p] Cons.prems(1)
  have cur: "curToken p = t" and nxt: "prefix (body @ [close]) (upcoming (nextToken p))"
    by auto
  from Cons.prems(3) have noeof: "Type t \<noteq> EOF" by simp
  from Cons.prems(3) have out: "\<not> (Type t = RPAREN \<and> d = 0)" by (auto split: if_splits)
  note unf = commandArgsLoop.simps[of tok name args parts d p]
  define k where "k = length (implicitTexts p)"
  consider (comma) "Type t = COMMA" | (lparen) "Type t = LPAREN" | (rparen) "Type t = RPAREN"
    | (string) "Type t = STRING" | (other) "Type t \<notin> {COMMA, LPAREN, RPAREN, STRING}"
    by auto
  then show ?case
  proof cases
    case comma
    with Cons.prems(3) have e: "enclosed d body" by simp
    obtain g1 gs1 where S: "splitCommas (relabel k body) = g1 # gs1"
      by (rule splitCommas_cases)
    with comma Cons.prems(4) have g: "g = []" "gs = g1 # gs1" by (auto simp: k_def)
    from Cons.IH[OF nxt Cons.prems(2) e, of g1 gs1 "args @ [strings_Join parts '' '']" "[]"] S
      comma cur noeof out g
    show ?thesis
      by (simp add: unf funpow_swap1 stringLiterals_def k_def)
  next
    case lparen
    with Cons.prems(3) have e: "enclosed (d + 1) body" by simp
    obtain g1 gs1 where S: "splitCommas (relabel k body) = g1 # gs1"
      by (rule splitCommas_cases)
    with lparen Cons.prems(4) have g: "g = t # g1" "gs = gs1" by (auto simp: k_def)
    from Cons.IH[OF nxt Cons.prems(2) e, of g1 gs1 args "parts @ [Literal t]"] S
      lparen cur noeof out g
    show ?thesis
      by (simp add: unf funpow_swap1 stringLiterals_def k_def)
  next
    case rparen
    with Cons.prems(3) have e: "enclosed (d - 1) body" by simp
    obtain g1 gs1 where S: "splitCommas (relabel k body) = g1 # gs1"
      by (rule splitCommas_cases)
    with rparen Cons.prems(4) have g: "g = t # g1" "gs = gs1" by (auto simp: k_def)
    from Cons.IH[OF nxt Cons.prems(2) e, of g1 gs1 args "parts @ [Literal t]"] S
      rparen cur noeof out g
    show ?thesis
      by (simp add: unf funpow_swap1 stringLiterals_def k_def)
  next
    case string
    with Cons.prems(3) have e: "enclosed d body" by simp
    obtain g1 gs1 where S: "splitCommas (relabel (Suc k) body) = g1 # gs1"
      by (rule splitCommas_cases)
    with string Cons.prems(4)
    have g: "g = t\<lparr>Literal := getImplicitTextLabel k\<rparr> # g1" "gs = gs1"
      by (auto simp: k_def)
    from nxt have nxt': "prefix (body @ [close])
        (upcoming (nextToken (p\<lparr>implicitTexts := implicitTexts p @ [Literal t]\<rparr>)))"
      by simp
    from Cons.IH[OF nxt' Cons.prems(2) e, of g1 gs1 args
        "parts @ [getImplicitTextLabel k]"] S
      string cur noeof out g
    show ?thesis
      by (simp add: unf funpow_swap1 stringLiterals_def funpow_nextToken_implicitTexts k_def)
  next
    case other
    with Cons.prems(3) have e: "enclosed d body" by simp
    obtain g1 gs1 where S: "splitCommas (relabel k body) = g1 # gs1"
      by (rule splitCommas_cases)
    with other Cons.prems(4) have g: "g = t # g1" "gs = gs1" by (auto simp: k_def)
    from Cons.IH[OF nxt Cons.prems(2) e, of g1 gs1 args "parts @ [Literal t]"] S
      other cur noeof out g
    show ?thesis
      by (simp add: unf funpow_swap1 stringLiterals_def k_def)
  qed
qed

lemma prefix_pending_upcoming:
  "prefix (pending (l p)) (upcoming (nextToken (nextToken p)))"
proof (cases "pending (l p)")
  case Nil
  then show ?thesis by simp
next
  case (Cons x xs)
  then show ?thesis
    by (cases xs) (auto simp: upcoming_def nextToken_def NextToken_def)
qed

text \<open>
  \<^verbatim>\<open>parseCommandStatement\<close> on a command whose argument tokens \<open>body\<close> are ended by their
  matching parenthesis \<open>close\<close>: the statement it returns and the parser it leaves.
\<close>

lemma parseCommandStatement_spec:
  assumes "Type (peekToken p) = LPAREN" "prefix (body @ [close]) (pending (l p))"
    "Type close = RPAREN" "enclosed 0 body"
  shows "parseCommandStatement p =
     (Some (CommandStatement (curToken p)
        \<lparr>idToken = curToken p, idValue = Literal (curToken p)\<rparr>
        (commandArgs (length (implicitTexts p)) body)),
      ((nextToken ^^ (length body + 2)) p)
         \<lparr>implicitTexts := implicitTexts p @ stringLiterals body\<rparr>)"
proof -
  let ?q = "nextToken (nextToken p)"
  from assms(2) prefix_pending_upcoming[of p]
  have pre: "prefix (body @ [close]) (upcoming ?q)"
    using prefix_order.trans by blast
  obtain g gs where S: "splitCommas (relabel (length (implicitTexts ?q)) body) = g # gs"
    by (rule splitCommas_cases)
  let ?tok = "curToken p" and ?name = "\<lparr>idToken = curToken p, idValue = Literal (curToken p)\<rparr>"
  note loop = commandArgsLoop_spec[OF pre assms(3,4) S, of ?tok ?name "[]" "[]"]
  define G where "G = g # gs"
  have S': "splitCommas (relabel (length (implicitTexts p)) body) = G"
    using S by (simp add: G_def)
  have G: "G \<noteq> []" by (simp add: G_def)
  have m: "map Literal g # map (map Literal) gs = map (map Literal) G" by (simp add: G_def)
  have la: "last (map (map Literal) G) = map Literal (last G)"
    using G by (rule last_map)
  have bu: "butlast (map (map Literal) G) = map (map Literal) (butlast G)"
    by (rule map_butlast[symmetric])
  have J: "map (\<lambda>x. strings_Join x '' '') (map (map Literal) xs) = map argText xs" for xs
    by (simp add: argText_def)
  have ab: "map argText (butlast G) @ [argText (last G)] = map argText G"
  proof -
    have "map argText (butlast G @ [last G]) = map argText G"
      by (simp only: append_butlast_last_id[OF G])
    then show ?thesis by simp
  qed
  have args: "(if 0 < length (last (map Literal g # map (map Literal) gs))
        then map (\<lambda>x. strings_Join x '' '') (butlast (map Literal g # map (map Literal) gs)) @
             [strings_Join (last (map Literal g # map (map Literal) gs)) '' '']
        else map (\<lambda>x. strings_Join x '' '') (butlast (map Literal g # map (map Literal) gs))) =
      commandArgs (length (implicitTexts p)) body"
    unfolding m la bu J commandArgs_def Let_def S'
    using ab by (cases "last G = []") (simp_all add: argText_def)
  define A where "A = map (\<lambda>x. strings_Join x '' '') (butlast (map Literal g # map (map Literal) gs))"
  define P where "P = last (map Literal g # map (map Literal) gs)"
  define Q where "Q = ((nextToken ^^ (length body + 2)) p)
         \<lparr>implicitTexts := implicitTexts p @ stringLiterals body\<rparr>"
  have fp: "(nextToken ^^ (length body + 2)) p = (nextToken ^^ length body) (nextToken (nextToken p))"
    by (simp add: funpow_swap1)
  from loop have loop': "commandArgsLoop ?tok ?name [] [] 0 ?q = (Some (A, P), Q)"
    unfolding A_def P_def Q_def fp by simp
  from args have args': "(if 0 < length P then A @ [strings_Join P '' ''] else A) =
      commandArgs (length (implicitTexts p)) body"
    unfolding A_def P_def .
  show ?thesis
    unfolding parseCommandStatement_def peekTokenIs_def Let_def Q_def[symmetric]
    using assms(1) loop' args'
    by simp
qed


lemma curToken_after_prefix:
  "prefix (xs @ [c]) (upcoming q) \<Longrightarrow> curToken ((nextToken ^^ length xs) q) = c"
proof (induction xs arbitrary: q)
  case Nil
  then show ?case by (auto simp: upcoming_def)
next
  case (Cons x xs)
  from prefix_upcoming_step[of x "xs @ [c]" q] Cons.prems
  have "prefix (xs @ [c]) (upcoming (nextToken q))" by simp
  from Cons.IH[OF this] show ?case by (simp add: funpow_swap1)
qed

text \<open>
  Claim C1 as the specification words it: the tokens are cut only at the commas that
  stand outside every nested pair of parentheses.
\<close>

fun splitCommasDepth0 :: "int \<Rightarrow> token list \<Rightarrow> token list list" where
  "splitCommasDepth0 d [] = [[]]"
| "splitCommasDepth0 d (t # ts) =
     (if Type t = COMMA \<and> d = 0 then [] # splitCommasDepth0 d ts
      else
        let groups = splitCommasDepth0
              (if Type t = LPAREN then d + 1 else if Type t = RPAREN then d - 1 else d) ts
        in (t # hd groups) # tl groups)"

definition commandArgsDepth0 :: "nat \<Rightarrow> token list \<Rightarrow> string list" where
  "commandArgsDepth0 k body =
     (let groups = splitCommasDepth0 0 (relabel k body)
      in map argText (if last groups = [] then butlast groups else groups))"

text \<open>No comma among the tokens stands inside nested parentheses.\<close>

fun commasAtDepth0 :: "int \<Rightarrow> token list \<Rightarrow> bool" where
  "commasAtDepth0 d [] = True"
| "commasAtDepth0 d (t # ts) =
     (if Type t = COMMA then d = 0 \<and> commasAtDepth0 d ts
      else commasAtDepth0
             (if Type t = LPAREN then d + 1 else if Type t = RPAREN then d - 1 else d) ts)"

lemma splitCommasDepth0_splitCommas:
  "commasAtDepth0 d ts \<Longrightarrow> splitCommasDepth0 d ts = splitCommas ts"
  by (induction ts arbitrary: d) (auto simp: Let_def)

lemma Type_relabel [simp]: "map Type (relabel k ts) = map Type ts"
  by (induction ts arbitrary: k) auto

lemma commasAtDepth0_types:
  "map Type ts = map Type us \<Longrightarrow> commasAtDepth0 d ts = commasAtDepth0 d us"
proof (induction ts arbitrary: us d)
  case Nil
  then show ?case by simp
next
  case (Cons t ts)
  then obtain u us' where us: "us = u # us'" "Type u = Type t" "map Type ts = map Type us'"
    by (cases us) auto
  with Cons.IH[OF us(3)] show ?case by simp
qed

lemma commandArgs_depth0:
  "commasAtDepth0 0 body \<Longrightarrow> commandArgs k body = commandArgsDepth0 k body"
  using commasAtDepth0_types[of "relabel k body" body 0]
  by (simp add: commandArgs_def commandArgsDepth0_def splitCommasDepth0_splitCommas)

text \<open>The arguments of the command statement that a call returns.\<close>

definition argsOf :: "statement option \<times> parser \<Rightarrow> string list option" where
  "argsOf r = map_option csArgs (fst r)"

text \<open>The token stream of \<^verbatim>\<open>setvar(max(VAR_A, VAR_B), VAR_C)\<close>.\<close>

definition nestedBody :: "token list" where
  "nestedBody =
     [tk IDENT ''max'' 5, tk LPAREN ''('' 5, tk IDENT ''VAR_A'' 5, tk COMMA '','' 5,
      tk IDENT ''VAR_B'' 5, tk RPAREN '')'' 5, tk COMMA '','' 5, tk IDENT ''VAR_C'' 5]"

definition nestedCall :: "token list" where
  "nestedCall = [tk IDENT ''setvar'' 5, tk LPAREN ''('' 5] @ nestedBody @ [tk RPAREN '')'' 5]"

text \<open>
  Claim C1, as stated, fails: the comma inside \<^verbatim>\<open>max( ... )\<close> ends an argument, so the
  command gets three arguments where the split at depth 0 gives two.
\<close>

theorem comma_inside_parentheses_splits:
  "argsOf (parseCommandStatement (New (lexerOf nestedCall 6))) =
     Some [''max ( VAR_A'', ''VAR_B )'', ''VAR_C''] \<and>
   commandArgsDepth0 0 nestedBody = [''max ( VAR_A , VAR_B )'', ''VAR_C''] \<and>
   argsOf (parseCommandStatement (New (lexerOf nestedCall 6))) \<noteq>
     Some (commandArgsDepth0 0 nestedBody)"
proof -
  have a: "argsOf (parseCommandStatement (New (lexerOf nestedCall 6))) =
     Some [''max ( VAR_A'', ''VAR_B )'', ''VAR_C'']"
    by (simp add: argsOf_def nestedCall_def nestedBody_def parseCommandStatement_def
          commandArgsLoop.simps state_defs)
  have b: "commandArgsDepth0 0 nestedBody = [''max ( VAR_A , VAR_B )'', ''VAR_C'']"
    by (simp add: commandArgsDepth0_def nestedBody_def argText_def tk_def Let_def)
  from a b show ?thesis by simp
qed

text \<open>
  Claim C1, amended. The argument list runs to the closing parenthesis that matches the
  opening one, found with the depth counter, and that parenthesis is the current token
  afterwards. Between the two, every comma ends an argument, whatever the depth; where no
  comma stands inside nested parentheses, that is the split at depth 0 of the claim.
\<close>

theorem command_arguments_split_at_every_comma:
  assumes "Type (peekToken p) = LPAREN" and "prefix (body @ [close]) (pending (l p))"
    and "Type close = RPAREN" and "enclosed 0 body"
  shows "argsOf (parseCommandStatement p) = Some (commandArgs (length (implicitTexts p)) body) \<and>
         curToken (snd (parseCommandStatement p)) = close \<and>
         (commasAtDepth0 0 body \<longrightarrow>
            commandArgs (length (implicitTexts p)) body =
            commandArgsDepth0 (length (implicitTexts p)) body)"
proof -
  from assms(2) prefix_pending_upcoming[of p]
  have "prefix (body @ [close]) (upcoming (nextToken (nextToken p)))"
    using prefix_order.trans by blast
  from curToken_after_prefix[OF this]
  have "curToken ((nextToken ^^ (length body + 2)) p) = close" by (simp add: funpow_swap1)
  with parseCommandStatement_spec[OF assms] commandArgs_depth0 show ?thesis
    by (simp add: argsOf_def)
qed

text \<open>The argument tokens of \<^verbatim>\<open>setvar(VAR_A, max(VAR_B))\<close>.\<close>

definition nestedArgument :: "token list" where
  "nestedArgument =
     [tk IDENT ''VAR_A'' 5, tk COMMA '','' 5, tk IDENT ''max'' 5, tk LPAREN ''('' 5,
      tk IDENT ''VAR_B'' 5, tk RPAREN '')'' 5]"

theorem command_arguments_split_at_every_comma_witness:
  "argsOf (parseCommandStatement
     (New (lexerOf ([tk IDENT ''setvar'' 5, tk LPAREN ''('' 5] @ nestedArgument @
                    [tk RPAREN '')'' 5, tk IDENT ''end'' 6]) 7))) =
     Some [''VAR_A'', ''max ( VAR_B )''] \<and>
   curToken (snd (parseCommandStatement
     (New (lexerOf ([tk IDENT ''setvar'' 5, tk LPAREN ''('' 5] @ nestedArgument @
                    [tk RPAREN '')'' 5, tk IDENT ''end'' 6]) 7)))) = tk RPAREN '')'' 5 \<and>
   commandArgsDepth0 0 nestedArgument = [''VAR_A'', ''max ( VAR_B )'']"
proof -
  let ?p = "New (lexerOf ([tk IDENT ''setvar'' 5, tk LPAREN ''('' 5] @ nestedArgument @
                    [tk RPAREN '')'' 5, tk IDENT ''end'' 6]) 7)"
  have h1: "Type (peekToken ?p) = LPAREN" by (simp add: state_defs)
  have h2: "prefix (nestedArgument @ [tk RPAREN '')'' 5]) (pending (l ?p))"
    by (simp add: state_defs nestedArgument_def)
  have h3: "Type (tk RPAREN '')'' 5) = RPAREN" by (simp add: tk_def)
  have h4: "enclosed 0 nestedArgument" by (simp add: nestedArgument_def tk_def)
  have h5: "commasAtDepth0 0 nestedArgument" by (simp add: nestedArgument_def tk_def)
  have v: "commandArgs 0 nestedArgument = [''VAR_A'', ''max ( VAR_B )'']"
    by (simp add: commandArgs_def nestedArgument_def argText_def tk_def)
  have i: "implicitTexts ?p = []" by (simp add: New_def)
  from command_arguments_split_at_every_comma [OF h1 h2 h3 h4] h5 v i
  show ?thesis by simp
qed

section \<open>Implicit texts are only ever appended\<close>

lemmas parse_induct =
  parseBlockStatement_blockLoop_parseStatement_parseIfStatement_elifLoop_parseIfConditionExpression.induct

text \<open>
  From one parser to a later one, the implicit texts have grown at the end only: a text
  keeps the index at which it was found.
\<close>

definition textsGrow :: "parser \<Rightarrow> parser \<Rightarrow> bool" where
  "textsGrow p p' = prefix (implicitTexts p) (implicitTexts p')"

lemma textsGrow_refl [simp]: "textsGrow p p"
  by (simp add: textsGrow_def)

lemma textsGrow_trans: "textsGrow a b \<Longrightarrow> textsGrow b c \<Longrightarrow> textsGrow a c"
  unfolding textsGrow_def by (rule prefix_order.trans)

lemma textsGrow_same: "implicitTexts p' = implicitTexts p \<Longrightarrow> textsGrow p p'"
  by (simp add: textsGrow_def)

lemma textsGrow_cong:
  "implicitTexts a = implicitTexts a' \<Longrightarrow> implicitTexts b = implicitTexts b' \<Longrightarrow>
     textsGrow a b = textsGrow a' b'"
  by (simp add: textsGrow_def)

lemma implicitTexts_addError [simp]: "implicitTexts (addError m p) = implicitTexts p"
  by (simp add: addError_def)

lemma implicitTexts_peekError [simp]: "implicitTexts (peekError t p) = implicitTexts p"
  by (simp add: peekError_def)

lemma implicitTexts_expectPeek:
  "expectPeek t p = (ok, p') \<Longrightarrow> implicitTexts p' = implicitTexts p"
  by (auto simp: expectPeek_def split: if_splits)

lemma implicitTexts_partsLoop:
  assumes "partsLoop parts p = Some r"
  shows "implicitTexts (snd r) = implicitTexts p"
proof (rule partsLoop.raw_induct[OF _ assms])
  fix f parts p r
  assume IH: "\<And>parts p r. f parts p = Some r \<Longrightarrow> implicitTexts (snd r) = implicitTexts p"
    and step: "(if Type (curToken p) \<noteq> RPAREN
                then f (parts @ [Literal (curToken p)]) (nextToken p)
                else Some (parts, p)) = Some r"
  show "implicitTexts (snd r) = implicitTexts p"
  proof (cases "Type (curToken p) = RPAREN")
    case True
    with step show ?thesis by auto
  next
    case False
    with step have "f (parts @ [Literal (curToken p)]) (nextToken p) = Some r" by simp
    from IH[OF this] show ?thesis by simp
  qed
qed

lemma implicitTexts_parseIfVarOperator:
  "parseIfVarOperator e p = Some (ok, e', p') \<Longrightarrow> implicitTexts p' = implicitTexts p"
  by (auto simp: parseIfVarOperator_def Let_def
           split: if_splits prod.splits option.splits bool.splits
           dest!: implicitTexts_partsLoop implicitTexts_expectPeek)

lemma implicitTexts_parseIfFlagOperator:
  "parseIfFlagOperator e p = (ok, e', p') \<Longrightarrow> implicitTexts p' = implicitTexts p"
  by (auto simp: parseIfFlagOperator_def Let_def
           split: if_splits prod.splits option.splits bool.splits
           dest!: implicitTexts_expectPeek)

lemma implicitTexts_parseIfOperator:
  "parseIfOperator e p = Some (ok, e', p') \<Longrightarrow> implicitTexts p' = implicitTexts p"
  by (auto simp: parseIfOperator_def split: if_splits
           dest: implicitTexts_parseIfVarOperator implicitTexts_parseIfFlagOperator)

lemma textsGrow_commandArgsLoop:
  "commandArgsLoop tok name args argParts n p = (r, p') \<Longrightarrow> textsGrow p p'"
proof (induction tok name args argParts n p rule: commandArgsLoop.induct)
  case (1 tok name args argParts numOpenParens p)
  note eq = "1.prems"[unfolded commandArgsLoop.simps[of tok name args argParts numOpenParens p]]
  show ?case
  proof (cases "Type (curToken p) = RPAREN \<and> numOpenParens = 0")
    case True
    with eq show ?thesis by auto
  next
    case out: False
    show ?thesis
    proof (cases "Type (curToken p) = EOF")
      case True
      with out eq show ?thesis by (auto intro: textsGrow_same)
    next
      case noeof: False
      consider (comma) "Type (curToken p) = COMMA"
        | (lparen) "Type (curToken p) = LPAREN"
        | (rparen) "Type (curToken p) = RPAREN"
        | (string) "Type (curToken p) = STRING"
        | (other) "Type (curToken p) \<notin> {COMMA, LPAREN, RPAREN, STRING}"
        by auto
      then show ?thesis
      proof cases
        case comma
        with out noeof eq "1.IH"(1)[OF out noeof] show ?thesis by (simp add: textsGrow_def)
      next
        case lparen
        with out noeof eq "1.IH"(2)[OF out noeof] show ?thesis by (simp add: textsGrow_def)
      next
        case rparen
        with out noeof eq "1.IH"(3)[OF out noeof] show ?thesis by (simp add: textsGrow_def)
      next
        case string
        with out noeof eq "1.IH"(4)[OF out noeof] show ?thesis
          by (auto simp: textsGrow_def dest: append_prefixD)
      next
        case other
        with out noeof eq "1.IH"(5)[OF out noeof] show ?thesis by (simp add: textsGrow_def)
      qed
    qed
  qed
qed

lemma textsGrow_parseCommandStatement:
  "parseCommandStatement p = (r, p') \<Longrightarrow> textsGrow p p'"
  by (auto simp: parseCommandStatement_def Let_def textsGrow_def
           split: if_splits prod.splits option.splits
           dest!: textsGrow_commandArgsLoop)


lemma textsGrow_step:
  "implicitTexts q = implicitTexts p \<Longrightarrow> textsGrow q p' \<Longrightarrow> textsGrow p p'"
  by (simp add: textsGrow_def)

lemma textsGrow_parse:
  shows "\<forall>r p'. parseBlockStatement p1 = Some (r, p') \<longrightarrow> textsGrow p1 p'"
    and "\<forall>r p'. blockLoop block p2 = Some (r, p') \<longrightarrow> textsGrow p2 p'"
    and "\<forall>r p'. parseStatement p3 = Some (r, p') \<longrightarrow> textsGrow p3 p'"
    and "\<forall>r p'. parseIfStatement p4 = Some (r, p') \<longrightarrow> textsGrow p4 p'"
    and "\<forall>r p'. elifLoop elifs p5 = Some (r, p') \<longrightarrow> textsGrow p5 p'"
    and "\<forall>r p'. parseIfConditionExpression ln p6 = Some (r, p') \<longrightarrow> textsGrow p6 p'"
proof (induct rule: parse_induct)
  case (1 p)
  then show ?case by (simp add: parseBlockStatement.simps)
next
  case (2 block p)
  note ps = blockLoop.simps[of block p]
  show ?case
  proof (intro allI impI)
    fix r p' assume r: "blockLoop block p = Some (r, p')"
    show "textsGrow p p'"
    proof (cases "Type (curToken p) \<noteq> RBRACE \<and> Type (curToken p) \<noteq> EOF")
      case False
      with r show ?thesis by (auto simp: ps textsGrow_same split: if_splits)
    next
      case True
      then obtain x p1 where st: "parseStatement p = Some (x, p1)"
        using r by (auto simp: ps split: option.splits)
      from True "2.hyps"(1) st have g1: "textsGrow p p1" by blast
      show ?thesis
      proof (cases x)
        case None
        with r st True g1 show ?thesis by (auto simp: ps)
      next
        case (Some statement)
        with r st True
        have "blockLoop (BlockStatement (bsToken block) (bsStatements block @ [statement]))
                (nextToken p1) = Some (r, p')"
          by (auto simp: ps)
        with "2.hyps"(2)[OF _ _ st refl Some] True
        have "textsGrow (nextToken p1) p'" by blast
        then have "textsGrow p1 p'" by (rule textsGrow_step[rotated]) simp
        with g1 show ?thesis by (rule textsGrow_trans)
      qed
    qed
  qed
next
  case (3 p)
  then show ?case
    by (auto simp: parseStatement.simps[of p] textsGrow_same split: if_splits option.splits
             dest: textsGrow_parseCommandStatement)
next
  case (4 p)
  note ps = parseIfStatement.simps[of p]
  show ?case
  proof (intro allI impI)
    fix r p' assume r: "parseIfStatement p = Some (r, p')"
    obtain ok p1 where ep: "expectPeek LPAREN p = (ok, p1)" by (cases "expectPeek LPAREN p")
    note t1 = implicitTexts_expectPeek[OF ep]
    show "textsGrow p p'"
    proof (cases ok)
      case False
      with r ep t1 show ?thesis by (auto simp: ps textsGrow_same)
    next
      case True
      obtain c p2 where ce: "parseIfConditionExpression (LineNumber (curToken p)) p1 = Some (c, p2)"
        using r ep True by (auto simp: ps split: option.splits)
      from "4.hyps"(1)[OF ep[symmetric] is_True[OF True]] ce have "textsGrow p1 p2" by blast
      with t1 have g2: "textsGrow p p2" by (rule textsGrow_step)
      show ?thesis
      proof (cases c)
        case None
        with r ep True ce g2 show ?thesis by (auto simp: ps)
      next
        case (Some consequence)
        obtain e p3 where el: "elifLoop [] p2 = Some (e, p3)"
          using r ep True ce Some by (auto simp: ps split: option.splits)
        from "4.hyps"(2)[OF ep[symmetric] is_True[OF True] ce refl Some] el
        have "textsGrow p2 p3" by blast
        with g2 have g3: "textsGrow p p3" by (rule textsGrow_trans)
        show ?thesis
        proof (cases e)
          case None
          with r ep True ce Some el g3 show ?thesis by (auto simp: ps)
        next
          case elifs: (Some elifConsequences)
          show ?thesis
          proof (cases "Type (peekToken p3) = ELSE")
            case False
            with r ep True ce Some el elifs g3 show ?thesis by (auto simp: ps)
          next
            case else: True
            obtain ok4 p4 where ep4: "expectPeek LBRACE (nextToken p3) = (ok4, p4)"
              by (cases "expectPeek LBRACE (nextToken p3)")
            from implicitTexts_expectPeek[OF ep4]
            have t4: "implicitTexts p4 = implicitTexts p3" by simp
            show ?thesis
            proof (cases ok4)
              case False
              with r ep True ce Some el elifs else ep4 have "implicitTexts p' = implicitTexts p4"
                by (auto simp: ps)
              with t4 g3 show ?thesis by (simp add: textsGrow_def)
            next
              case ok4: True
              obtain b p5 where pb: "parseBlockStatement (nextToken p4) = Some (b, p5)"
                using r ep True ce Some el elifs else ep4 ok4
                by (auto simp: ps split: option.splits)
              from "4.hyps"(3)[OF ep[symmetric] is_True[OF True] ce refl Some el refl elifs else
                     ep4[symmetric] is_True[OF ok4]] pb
              have "textsGrow (nextToken p4) p5" by blast
              with t4 have "textsGrow p3 p5" by (simp add: textsGrow_def)
              with g3 have g5: "textsGrow p p5" by (rule textsGrow_trans)
              from r ep True ce Some el elifs else ep4 ok4 pb have "p' = p5"
                by (auto simp: ps)
              with g5 show ?thesis by simp
            qed
          qed
        qed
      qed
    qed
  qed
next
  case (5 elifConsequences p)
  note ps = elifLoop.simps[of elifConsequences p]
  show ?case
  proof (intro allI impI)
    fix r p' assume r: "elifLoop elifConsequences p = Some (r, p')"
    show "textsGrow p p'"
    proof (cases "Type (peekToken p) = ELSEIF")
      case False
      with r show ?thesis by (auto simp: ps)
    next
      case elif: True
      obtain ok p1 where ep: "expectPeek LPAREN (nextToken p) = (ok, p1)"
        by (cases "expectPeek LPAREN (nextToken p)")
      from implicitTexts_expectPeek[OF ep] have t1: "implicitTexts p1 = implicitTexts p" by simp
      show ?thesis
      proof (cases ok)
        case False
        with r elif ep have "implicitTexts p' = implicitTexts p1" by (auto simp: ps)
        with t1 show ?thesis by (simp add: textsGrow_def)
      next
        case True
        obtain c p2 where
          ce: "parseIfConditionExpression (LineNumber (peekToken p1)) p1 = Some (c, p2)"
          using r elif ep True by (auto simp: ps split: option.splits)
        from "5.hyps"(1)[OF elif ep[symmetric] is_True[OF True]] ce
        have "textsGrow p1 p2" by blast
        with t1 have g2: "textsGrow p p2" by (rule textsGrow_step)
        show ?thesis
        proof (cases c)
          case None
          with r elif ep True ce g2 show ?thesis by (auto simp: ps)
        next
          case (Some consequence)
          with r elif ep True ce
          have "elifLoop (elifConsequences @ [consequence]) p2 = Some (r, p')"
            by (auto simp: ps)
          with "5.hyps"(2)[OF elif ep[symmetric] is_True[OF True] ce refl Some]
          have "textsGrow p2 p'" by blast
          with g2 show ?thesis by (rule textsGrow_trans)
        qed
      qed
    qed
  qed
next
  case (6 lineNumber p)
  note ps = parseIfConditionExpression.simps[of lineNumber p]
  show ?case
  proof (intro allI impI)
    fix r p' assume r: "parseIfConditionExpression lineNumber p = Some (r, p')"
    show "textsGrow p p'"
    proof (cases "\<not> peekTokenIs VAR p \<and> \<not> peekTokenIs FLAG p")
      case True
      with r show ?thesis by (auto simp: ps textsGrow_same)
    next
      case kind: False
      define expression where
        "expression = ConditionExpression (Type (curToken (nextToken p))) [] (OtherType []) [] None"
      obtain ok p1 where ep: "expectPeek LPAREN (nextToken p) = (ok, p1)"
        by (cases "expectPeek LPAREN (nextToken p)")
      from implicitTexts_expectPeek[OF ep] have t1: "implicitTexts p1 = implicitTexts p" by simp
      show ?thesis
      proof (cases "ok \<and> Type (peekToken p1) \<noteq> RPAREN")
        case False
        with r kind ep have "implicitTexts p' = implicitTexts p1"
          by (auto simp: ps Let_def split: if_splits bool.splits)
        with t1 show ?thesis by (simp add: textsGrow_def)
      next
        case True
        obtain parts p2 where pl: "partsLoop [] (nextToken p1) = Some (parts, p2)"
          using r kind ep True by (auto simp: ps Let_def split: option.splits)
        from implicitTexts_partsLoop[OF pl] t1
        have t2: "implicitTexts p2 = implicitTexts p" by simp
        obtain b expression1 p3 where
          po: "parseIfOperator (setOperand (strings_Join parts '' '') expression) (nextToken p2)
                 = Some (b, expression1, p3)"
          using r kind ep True pl
          by (auto simp: ps Let_def expression_def split: option.splits)
        from implicitTexts_parseIfOperator[OF po] t2
        have t3: "implicitTexts p3 = implicitTexts p" by simp
        show ?thesis
        proof (cases b)
          case False
          with r kind ep True pl po have "p' = p3"
            by (auto simp: ps Let_def expression_def)
          with t3 show ?thesis by (simp add: textsGrow_def)
        next
          case b: True
          obtain body p4 where pb: "parseBlockStatement p3 = Some (body, p4)"
            using r kind ep True pl po b
            by (auto simp: ps Let_def expression_def split: option.splits)
          from True have ok: "ok = True" and nr: "Type (peekToken p1) \<noteq> RPAREN" by auto
          from "6.hyps"(1)[OF kind refl refl ep[symmetric] ok nr pl refl
                 po[unfolded expression_def] refl is_True[OF b] refl] pb
          have "textsGrow p3 p4" by blast
          with t3 have g4: "textsGrow p p4" by (rule textsGrow_step)
          from r kind ep True pl po b pb have "p' = p4"
            by (auto simp: ps Let_def expression_def)
          with g4 show ?thesis by simp
        qed
      qed
    qed
  qed
qed

lemma textsGrow_parseScriptStatement:
  "parseScriptStatement p = Some (r, p') \<Longrightarrow> textsGrow p p'"
proof -
  assume a: "parseScriptStatement p = Some (r, p')"
  obtain ok p1 where e1: "expectPeek IDENT p = (ok, p1)" by (cases "expectPeek IDENT p")
  obtain ok2 p2 where e2: "expectPeek LBRACE p1 = (ok2, p2)" by (cases "expectPeek LBRACE p1")
  note t1 = implicitTexts_expectPeek[OF e1] and t2 = implicitTexts_expectPeek[OF e2]
  show ?thesis
  proof (cases "ok \<and> ok2")
    case False
    with a e1 e2 t1 t2 show ?thesis
      by (auto simp: parseScriptStatement_def Let_def textsGrow_def split: bool.splits)
  next
    case True
    with a e1 e2 obtain body where
      "parseBlockStatement (nextToken p2) = Some (body, p')"
      by (auto simp: parseScriptStatement_def Let_def split: option.splits)
    with textsGrow_parse(1) have "textsGrow (nextToken p2) p'" by blast
    with t1 t2 show ?thesis by (simp add: textsGrow_def)
  qed
qed

lemma implicitTexts_parseRawStatement:
  "parseRawStatement p = (r, p') \<Longrightarrow> implicitTexts p' = implicitTexts p"
  by (auto simp: parseRawStatement_def Let_def split: prod.splits bool.splits
           dest!: implicitTexts_expectPeek)

lemma textsGrow_parseTopLevelStatement:
  "parseTopLevelStatement p = Some (r, p') \<Longrightarrow> textsGrow p p'"
  by (auto simp: parseTopLevelStatement_def textsGrow_same
           split: if_splits option.splits prod.splits
           dest: textsGrow_parseScriptStatement implicitTexts_parseRawStatement)

lemma textsGrow_programLoop:
  "programLoop prog p = Some (r, p') \<Longrightarrow> textsGrow p p'"
proof (induction prog p rule: programLoop.induct)
  case (1 prog p)
  note ps = programLoop.simps[of prog p]
  show ?case
  proof (cases "Type (curToken p) = EOF")
    case True
    with "1.prems" show ?thesis by (auto simp: ps)
  next
    case False
    then obtain statement p1 where ts: "parseTopLevelStatement p = Some (statement, p1)"
      using "1.prems" by (auto simp: ps split: option.splits)
    note g1 = textsGrow_parseTopLevelStatement[OF ts]
    show ?thesis
    proof (cases "0 < length (errors p1)")
      case True
      with False ts "1.prems" g1 show ?thesis by (auto simp: ps)
    next
      case e: False
      with False ts "1.prems" "1.IH"[OF False ts refl e]
      have "textsGrow (nextToken p1) p'" by (auto simp: ps)
      then have "textsGrow p1 p'" by (simp add: textsGrow_def)
      with g1 show ?thesis by (rule textsGrow_trans)
    qed
  qed
qed

text \<open>Labels: the decimal digits of a number determine it.\<close>

lemma digitChar_inj: "a < 10 \<Longrightarrow> b < 10 \<Longrightarrow> digitChar a = digitChar b \<Longrightarrow> a = b"
proof -
  assume a: "a < 10" and b: "b < 10" and e: "digitChar a = digitChar b"
  have d: "distinct ''0123456789''" by simp
  from a b e show "a = b"
    by (simp add: digitChar_def nth_eq_iff_index_eq[OF d])
qed

lemma showNat_nonempty: "showNat n \<noteq> []"
  by (subst showNat.simps) simp

lemma showNat_inj: "showNat m = showNat n \<Longrightarrow> m = n"
proof (induction m arbitrary: n rule: showNat.induct)
  case (1 m)
  show ?case
  proof (cases "m < 10")
    case True
    show ?thesis
    proof (cases "n < 10")
      case n: True
      with True "1.prems" digitChar_inj[of m n] show ?thesis
        by (simp add: showNat.simps[of m] showNat.simps[of n])
    next
      case n: False
      with True "1.prems" showNat_nonempty[of "n div 10"] show ?thesis
        by (simp add: showNat.simps[of m] showNat.simps[of n])
    qed
  next
    case False
    show ?thesis
    proof (cases "n < 10")
      case n: True
      with False "1.prems" showNat_nonempty[of "m div 10"] show ?thesis
        by (simp add: showNat.simps[of m] showNat.simps[of n])
    next
      case n: False
      with False "1.prems"
      have e: "showNat (m div 10) = showNat (n div 10)" "digitChar m = digitChar n"
        by (simp_all add: showNat.simps[of m] showNat.simps[of n])
      from "1.IH"[OF False e(1)] have d: "m div 10 = n div 10" .
      from e(2) have "digitChar (m mod 10) = digitChar (n mod 10)" by (simp add: digitChar_def)
      with digitChar_inj[of "m mod 10" "n mod 10"] have "m mod 10 = n mod 10" by simp
      with d show ?thesis by (metis div_mult_mod_eq)
    qed
  qed
qed

lemma getImplicitTextLabel_inj: "inj getImplicitTextLabel"
  by (auto simp: inj_def getImplicitTextLabel_def dest: showNat_inj)

lemma distinct_entry_names: "distinct (map Name (implicitTextEntries texts))"
proof -
  have "map Name (implicitTextEntries texts) = map getImplicitTextLabel [0..<length texts]"
    by (simp add: implicitTextEntries_def comp_def)
  then show ?thesis
    using getImplicitTextLabel_inj by (simp add: distinct_map inj_on_def inj_def)
qed

text \<open>
  Relabelling gives the string literals, from left to right, the labels of \<open>k\<close>, \<open>k + 1\<close> and
  so on, and leaves every other token as it is.
\<close>

lemma relabel_labels:
  "map Literal (filter (\<lambda>t. Type t = STRING) (relabel k body)) =
     map getImplicitTextLabel [k..<k + length (stringLiterals body)]"
proof (induction body arbitrary: k)
  case Nil
  then show ?case by (simp add: stringLiterals_def)
next
  case (Cons t body)
  show ?case
  proof (cases "Type t = STRING")
    case True
    define n where "n = length (stringLiterals body)"
    have u: "[k..<k + Suc n] = k # [Suc k..<Suc k + n]"
      by (simp add: upt_rec[of k])
    have l: "length (stringLiterals (t # body)) = Suc n"
      using True by (simp add: stringLiterals_def n_def)
    have "map Literal (filter (\<lambda>t. Type t = STRING) (relabel k (t # body))) =
        getImplicitTextLabel k #
          map Literal (filter (\<lambda>t. Type t = STRING) (relabel (Suc k) body))"
      using True by simp
    also have "\<dots> = getImplicitTextLabel k # map getImplicitTextLabel [Suc k..<Suc k + n]"
      by (simp only: Cons[of "Suc k"] n_def)
    also have "\<dots> = map getImplicitTextLabel [k..<k + Suc n]"
      by (simp only: u list.map)
    finally show ?thesis by (simp only: l)
  next
    case False
    with Cons[of k] show ?thesis by (simp add: stringLiterals_def)
  qed
qed

lemma relabel_others:
  "filter (\<lambda>t. Type t \<noteq> STRING) (relabel k body) = filter (\<lambda>t. Type t \<noteq> STRING) body"
  by (induction body arbitrary: k) auto


section \<open>The operator and the comparison value of a condition\<close>

text \<open>The six relational operators.\<close>

definition relational :: "tokenType \<Rightarrow> bool" where
  "relational t = (t = GT \<or> t = GTE \<or> t = LT \<or> t = LTE \<or> t = EQ \<or> t = NEQ)"

text \<open>
  The invariant of the specification's data model: a \<open>var\<close> condition compares with one of
  the six operators, a \<open>flag\<close> condition with \<open>==\<close> against \<open>TRUE\<close> or \<open>FALSE\<close>.
\<close>

definition wellFormedCondition :: "conditionExpression \<Rightarrow> bool" where
  "wellFormedCondition ce =
     ((ceType ce = VAR \<and> relational (ceOperator ce)) \<or>
      (ceType ce = FLAG \<and> ceOperator ce = EQ \<and>
       (ceComparisonValue ce = ''TRUE'' \<or> ceComparisonValue ce = ''FALSE'')))"

text \<open>The message contains the text.\<close>

definition mentions :: "string \<Rightarrow> string \<Rightarrow> bool" where
  "mentions s msg = list_ex (\<lambda>i. take (length s) (drop i msg) = s) [0..<Suc (length msg)]"

lemma ce_setters [simp]:
  "ceType (setOperand v e) = ceType e" "ceType (setOperator t e) = ceType e"
  "ceType (setComparisonValue v e) = ceType e" "ceType (setBody b e) = ceType e"
  "ceOperator (setOperand v e) = ceOperator e" "ceOperator (setOperator t e) = t"
  "ceOperator (setComparisonValue v e) = ceOperator e" "ceOperator (setBody b e) = ceOperator e"
  "ceComparisonValue (setOperand v e) = ceComparisonValue e"
  "ceComparisonValue (setOperator t e) = ceComparisonValue e"
  "ceComparisonValue (setComparisonValue v e) = v"
  "ceComparisonValue (setBody b e) = ceComparisonValue e"
  by (cases e; simp)+

lemma curToken_nextToken [simp]: "curToken (nextToken p) = peekToken p"
  by (simp add: nextToken_def split: prod.splits)

lemma var_operator_invalid:
  "\<not> relational (Type (curToken p)) \<Longrightarrow>
     parseIfVarOperator e p =
       Some (False, e,
         addError (''line '' @ showInt (LineNumber (curToken p)) @
           '': invalid condition operator '' @ sq @ Literal (curToken p) @ sq) p)"
  by (simp add: parseIfVarOperator_def relational_def)

lemma var_operator_ok:
  "parseIfVarOperator e p = Some (True, e', p') \<Longrightarrow>
     relational (Type (curToken p)) \<and> ceOperator e' = Type (curToken p) \<and> ceType e' = ceType e"
  by (auto simp: parseIfVarOperator_def relational_def Let_def
           split: if_splits option.splits prod.splits bool.splits)

lemma flag_operator_invalid:
  "Type (curToken p) \<noteq> EQ \<Longrightarrow>
     parseIfFlagOperator e p =
       (False, e,
         addError (''line '' @ showInt (LineNumber (curToken p)) @
           '': invalid condition operator '' @ sq @ Literal (curToken p) @ sq @
           ''. Only '' @ sq @ ''=='' @ sq @ '' is allowed.'') p)"
  by (simp add: parseIfFlagOperator_def)

lemma flag_value_invalid:
  "Type (curToken p) = EQ \<Longrightarrow> Type (peekToken p) \<noteq> TRUE \<Longrightarrow> Type (peekToken p) \<noteq> FALSE \<Longrightarrow>
   Type (peekToken p) \<noteq> RPAREN \<Longrightarrow>
     parseIfFlagOperator e p =
       (False, setOperator EQ e,
         addError (''line '' @ showInt (LineNumber (peekToken p)) @
           '': invalid flag comparison value '' @ sq @ Literal (peekToken p) @ sq @
           ''. Only '' @ sq @ ''TRUE'' @ sq @ '' and '' @ sq @ ''FALSE'' @ sq @
           '' are allowed.'') (nextToken p))"
  by (simp add: parseIfFlagOperator_def Let_def)

lemma flag_value_missing:
  "Type (curToken p) = EQ \<Longrightarrow> Type (peekToken p) = RPAREN \<Longrightarrow>
     parseIfFlagOperator e p =
       (False, setOperator EQ e,
         addError (''line '' @ showInt (LineNumber (peekToken p)) @
           '': missing comparison value for if statement'') (nextToken p))"
  by (simp add: parseIfFlagOperator_def Let_def)

lemma flag_operator_ok:
  "parseIfFlagOperator e p = (True, e', p') \<Longrightarrow>
     Type (curToken p) = EQ \<and> (Type (peekToken p) = TRUE \<or> Type (peekToken p) = FALSE) \<and>
     ceOperator e' = EQ \<and> ceComparisonValue e' = typeString (Type (peekToken p)) \<and>
     ceType e' = ceType e"
  by (auto simp: parseIfFlagOperator_def Let_def
           split: if_splits prod.splits bool.splits)

lemma condition_wellFormed:
  assumes "parseIfConditionExpression ln p = Some (Some ce, p')"
  shows "wellFormedCondition ce"
proof -
  note ps = parseIfConditionExpression.simps[of ln p]
  from assms have kind: "peekTokenIs VAR p \<or> peekTokenIs FLAG p"
    by (auto simp: ps split: if_splits)
  define expression where
    "expression = ConditionExpression (Type (curToken (nextToken p))) [] (OtherType []) [] None"
  obtain ok p1 where ep: "expectPeek LPAREN (nextToken p) = (ok, p1)"
    by (cases "expectPeek LPAREN (nextToken p)")
  from assms kind ep have ok: "ok" "Type (peekToken p1) \<noteq> RPAREN"
    by (auto simp: ps Let_def split: if_splits bool.splits)
  from assms kind ep ok obtain parts p2 where pl: "partsLoop [] (nextToken p1) = Some (parts, p2)"
    by (auto simp: ps Let_def split: option.splits)
  from assms kind ep ok pl obtain b expression1 p3 where
    po: "parseIfOperator (setOperand (strings_Join parts '' '') expression) (nextToken p2)
           = Some (b, expression1, p3)"
    by (auto simp: ps Let_def expression_def split: option.splits)
  from assms kind ep ok pl po have b: "b"
    by (auto simp: ps Let_def expression_def split: bool.splits)
  from assms kind ep ok pl po b obtain body where ce: "ce = setBody body expression1"
    by (auto simp: ps Let_def expression_def split: option.splits)
  have ty: "ceType (setOperand (strings_Join parts '' '') expression) = Type (peekToken p)"
    by (simp add: expression_def)
  show ?thesis
  proof (cases "Type (peekToken p) = VAR")
    case True
    with po b ty have "parseIfVarOperator (setOperand (strings_Join parts '' '') expression)
        (nextToken p2) = Some (True, expression1, p3)"
      by (simp add: parseIfOperator_def)
    from var_operator_ok[OF this] ty True ce show ?thesis
      by (simp add: wellFormedCondition_def)
  next
    case False
    with kind have f: "Type (peekToken p) = FLAG" by (simp add: peekTokenIs_def)
    with po b ty have "parseIfFlagOperator (setOperand (strings_Join parts '' '') expression)
        (nextToken p2) = (True, expression1, p3)"
      by (simp add: parseIfOperator_def)
    from flag_operator_ok[OF this] ty f ce show ?thesis
      by (auto simp: wellFormedCondition_def)
  qed
qed


text \<open>The token stream of \<^verbatim>\<open>script Main { if (flag(FLAG_A) == ) { } }\<close>.\<close>

definition flagWithoutValue :: "token list" where
  "flagWithoutValue =
     [tk SCRIPT ''script'' 1, tk IDENT ''Main'' 1, tk LBRACE ''{'' 1,
      tk IF ''if'' 2, tk LPAREN ''('' 2, tk FLAG ''flag'' 2, tk LPAREN ''('' 2,
      tk IDENT ''FLAG_A'' 2, tk RPAREN '')'' 2, tk EQ ''=='' 2, tk RPAREN '')'' 2,
      tk LBRACE ''{'' 2, tk RBRACE ''}'' 3, tk RBRACE ''}'' 4]"

text \<open>
  Claim C6, as stated, fails: with a closing parenthesis in the place of the flag's
  comparison value, the error is the one for a missing value, which names neither the
  allowed values nor the allowed operator.
\<close>

theorem flag_value_missing_message:
  "errorsOf (ParseProgram (New (lexerOf flagWithoutValue 5))) =
     Some [''line 2: missing comparison value for if statement''] \<and>
   \<not> mentions ''TRUE'' ''line 2: missing comparison value for if statement'' \<and>
   \<not> mentions ''FALSE'' ''line 2: missing comparison value for if statement'' \<and>
   \<not> mentions ''=='' ''line 2: missing comparison value for if statement''"
proof -
  have a: "errorsOf (ParseProgram (New (lexerOf flagWithoutValue 5))) =
     Some [''line 2: missing comparison value for if statement'']"
    by (simp add: errorsOf_def flagWithoutValue_def eval_defs partsLoop.simps)
  have b: "\<not> mentions ''TRUE'' ''line 2: missing comparison value for if statement''"
    "\<not> mentions ''FALSE'' ''line 2: missing comparison value for if statement''"
    "\<not> mentions ''=='' ''line 2: missing comparison value for if statement''"
    by (simp_all add: mentions_def upt_rec)
  from a b show ?thesis by simp
qed

text \<open>
  Claim C6, amended. For a \<open>var\<close> condition, a token other than the six relational operators
  in the operator's place gives an error and the result \<open>false\<close>, and the result is \<open>true\<close>
  only for one of the six. For a \<open>flag\<close> condition, an operator other than \<open>==\<close> gives an
  error that names \<open>==\<close>; a value token other than \<open>TRUE\<close> and \<open>FALSE\<close> gives an error that
  names the two, unless the token is a closing parenthesis, which gives the error for a
  missing comparison value; the result is \<open>false\<close> in the three cases and \<open>true\<close> only for
  \<open>==\<close> with \<open>TRUE\<close> or \<open>FALSE\<close>. A condition that
  \<^verbatim>\<open>parseIfConditionExpression\<close> returns is well formed: every other case returns \<^verbatim>\<open>nil\<close>.
\<close>

theorem condition_operator_validation:
  "(\<not> relational (Type (curToken p1)) \<longrightarrow>
      parseIfVarOperator e1 p1 =
        Some (False, e1,
          addError (''line '' @ showInt (LineNumber (curToken p1)) @
            '': invalid condition operator '' @ sq @ Literal (curToken p1) @ sq) p1)) \<and>
   (parseIfVarOperator e2 p2 = Some (True, e2', p2') \<longrightarrow>
      relational (Type (curToken p2)) \<and> ceOperator e2' = Type (curToken p2)) \<and>
   (Type (curToken p3) \<noteq> EQ \<longrightarrow>
      parseIfFlagOperator e3 p3 =
        (False, e3,
          addError (''line '' @ showInt (LineNumber (curToken p3)) @
            '': invalid condition operator '' @ sq @ Literal (curToken p3) @ sq @
            ''. Only '' @ sq @ ''=='' @ sq @ '' is allowed.'') p3)) \<and>
   (Type (curToken p4) = EQ \<and> Type (peekToken p4) \<noteq> TRUE \<and> Type (peekToken p4) \<noteq> FALSE \<and>
    Type (peekToken p4) \<noteq> RPAREN \<longrightarrow>
      parseIfFlagOperator e4 p4 =
        (False, setOperator EQ e4,
          addError (''line '' @ showInt (LineNumber (peekToken p4)) @
            '': invalid flag comparison value '' @ sq @ Literal (peekToken p4) @ sq @
            ''. Only '' @ sq @ ''TRUE'' @ sq @ '' and '' @ sq @ ''FALSE'' @ sq @
            '' are allowed.'') (nextToken p4))) \<and>
   (Type (curToken p5) = EQ \<and> Type (peekToken p5) = RPAREN \<longrightarrow>
      parseIfFlagOperator e5 p5 =
        (False, setOperator EQ e5,
          addError (''line '' @ showInt (LineNumber (peekToken p5)) @
            '': missing comparison value for if statement'') (nextToken p5))) \<and>
   (parseIfFlagOperator e6 p6 = (True, e6', p6') \<longrightarrow>
      Type (curToken p6) = EQ \<and> (Type (peekToken p6) = TRUE \<or> Type (peekToken p6) = FALSE) \<and>
      ceOperator e6' = EQ \<and> ceComparisonValue e6' = typeString (Type (peekToken p6))) \<and>
   (parseIfConditionExpression ln p7 = Some (Some ce, p7') \<longrightarrow> wellFormedCondition ce)"
  using var_operator_invalid[of p1 e1] var_operator_ok[of e2 p2 e2' p2']
    flag_operator_invalid[of p3 e3] flag_value_invalid[of p4 e4] flag_value_missing[of p5 e5]
    flag_operator_ok[of e6 p6 e6' p6'] condition_wellFormed[of ln p7 ce p7']
  by simp


text \<open>Expressions and parsers for the cases of the claim.\<close>

definition varExpression :: conditionExpression where
  "varExpression = ConditionExpression VAR ''VAR_A'' (OtherType []) [] None"

definition flagExpression :: conditionExpression where
  "flagExpression = ConditionExpression FLAG ''FLAG_A'' (OtherType []) [] None"

definition atFlagCondition :: parser where
  "atFlagCondition =
     New (lexerOf [tk LPAREN ''('' 2, tk FLAG ''flag'' 2, tk LPAREN ''('' 2,
       tk IDENT ''FLAG_A'' 2, tk RPAREN '')'' 2, tk EQ ''=='' 2, tk TRUE ''TRUE'' 2,
       tk RPAREN '')'' 2, tk LBRACE ''{'' 2, tk RBRACE ''}'' 3] 4)"

theorem condition_operator_validation_witness:
  "parseIfVarOperator varExpression (New (lexerOf [tk AND ''&&'' 2, tk IDENT ''1'' 2] 3)) =
     Some (False, varExpression,
       addError (''line 2: invalid condition operator '' @ sq @ ''&&'' @ sq)
         (New (lexerOf [tk AND ''&&'' 2, tk IDENT ''1'' 2] 3))) \<and>
   relational (Type (curToken (New (lexerOf
     [tk GTE ''>='' 2, tk IDENT ''3'' 2, tk RPAREN '')'' 2, tk LBRACE ''{'' 2, tk RBRACE ''}'' 3] 4)))) \<and>
   parseIfFlagOperator flagExpression (New (lexerOf [tk NEQ ''!='' 2, tk TRUE ''TRUE'' 2] 3)) =
     (False, flagExpression,
       addError (''line 2: invalid condition operator '' @ sq @ ''!='' @ sq @
           ''. Only '' @ sq @ ''=='' @ sq @ '' is allowed.'')
         (New (lexerOf [tk NEQ ''!='' 2, tk TRUE ''TRUE'' 2] 3))) \<and>
   parseIfFlagOperator flagExpression (New (lexerOf [tk EQ ''=='' 2, tk IDENT ''1'' 2] 3)) =
     (False, setOperator EQ flagExpression,
       addError (''line 2: invalid flag comparison value '' @ sq @ ''1'' @ sq @
           ''. Only '' @ sq @ ''TRUE'' @ sq @ '' and '' @ sq @ ''FALSE'' @ sq @ '' are allowed.'')
         (nextToken (New (lexerOf [tk EQ ''=='' 2, tk IDENT ''1'' 2] 3)))) \<and>
   parseIfFlagOperator flagExpression (New (lexerOf [tk EQ ''=='' 2, tk RPAREN '')'' 2] 3)) =
     (False, setOperator EQ flagExpression,
       addError ''line 2: missing comparison value for if statement''
         (nextToken (New (lexerOf [tk EQ ''=='' 2, tk RPAREN '')'' 2] 3)))) \<and>
   map_option (\<lambda>r. map_option ceComparisonValue (fst r))
       (parseIfConditionExpression 2 atFlagCondition) = Some (Some ''TRUE'')"
proof -
  let ?p1 = "New (lexerOf [tk AND ''&&'' 2, tk IDENT ''1'' 2] 3)"
  let ?p2 = "New (lexerOf
     [tk GTE ''>='' 2, tk IDENT ''3'' 2, tk RPAREN '')'' 2, tk LBRACE ''{'' 2, tk RBRACE ''}'' 3] 4)"
  let ?p3 = "New (lexerOf [tk NEQ ''!='' 2, tk TRUE ''TRUE'' 2] 3)"
  let ?p4 = "New (lexerOf [tk EQ ''=='' 2, tk IDENT ''1'' 2] 3)"
  let ?p5 = "New (lexerOf [tk EQ ''=='' 2, tk RPAREN '')'' 2] 3)"
  let ?p6 = "New (lexerOf
     [tk EQ ''=='' 2, tk TRUE ''TRUE'' 2, tk RPAREN '')'' 2, tk LBRACE ''{'' 2, tk RBRACE ''}'' 3] 4)"
  have h1: "\<not> relational (Type (curToken ?p1))" by (simp add: relational_def state_defs)
  have "\<exists>e' p'. parseIfVarOperator varExpression ?p2 = Some (True, e', p')"
    by (simp add: parseIfVarOperator_def partsLoop.simps expectPeek_def state_defs)
  then obtain e2' p2' where h2: "parseIfVarOperator varExpression ?p2 = Some (True, e2', p2')"
    by blast
  have h3: "Type (curToken ?p3) \<noteq> EQ" by (simp add: state_defs)
  have h4: "Type (curToken ?p4) = EQ \<and> Type (peekToken ?p4) \<noteq> TRUE \<and>
      Type (peekToken ?p4) \<noteq> FALSE \<and> Type (peekToken ?p4) \<noteq> RPAREN"
    by (simp add: state_defs)
  have h5: "Type (curToken ?p5) = EQ \<and> Type (peekToken ?p5) = RPAREN" by (simp add: state_defs)
  have "\<exists>e' p'. parseIfFlagOperator flagExpression ?p6 = (True, e', p')"
    by (simp add: parseIfFlagOperator_def expectPeek_def state_defs)
  then obtain e6' p6' where h6: "parseIfFlagOperator flagExpression ?p6 = (True, e6', p6')"
    by blast
  have "\<exists>ce p'. parseIfConditionExpression 2 atFlagCondition = Some (Some ce, p') \<and>
          ceComparisonValue ce = ''TRUE''"
    by (simp add: atFlagCondition_def parse_simps partsLoop.simps parseIfOperator_def
          parseIfFlagOperator_def expectPeek_def state_defs)
  then obtain ce p7' where
    h7: "parseIfConditionExpression 2 atFlagCondition = Some (Some ce, p7')" and
    v7: "ceComparisonValue ce = ''TRUE''"
    by blast
  have m: "LineNumber (curToken ?p1) = 2" "Literal (curToken ?p1) = ''&&''"
    "LineNumber (curToken ?p3) = 2" "Literal (curToken ?p3) = ''!=''"
    "LineNumber (peekToken ?p4) = 2" "Literal (peekToken ?p4) = ''1''"
    "LineNumber (peekToken ?p5) = 2" "showInt 2 = ''2''"
    by (simp_all add: state_defs showInt_def showNat.simps digitChar_def)
  from condition_operator_validation
    [where ?p1.0 = ?p1 and ?e1.0 = varExpression
       and ?p2.0 = ?p2 and ?e2.0 = varExpression and e2' = e2' and p2' = p2'
       and ?p3.0 = ?p3 and ?e3.0 = flagExpression
       and ?p4.0 = ?p4 and ?e4.0 = flagExpression
       and ?p5.0 = ?p5 and ?e5.0 = flagExpression
       and ?p6.0 = ?p6 and ?e6.0 = flagExpression and e6' = e6' and p6' = p6'
       and ln = 2 and ?p7.0 = atFlagCondition and ce = ce and p7' = p7']
    h1 h2 h3 h4 h5 h6 h7 v7 m
  show ?thesis by simp
qed

section \<open>Conditions that are closed\<close>

text \<open>The first two of the tokens in front of the parser, and what a step leaves.\<close>

lemma ahead:
  "prefix (a # b # ts) (upcoming p) \<Longrightarrow>
     curToken p = a \<and> peekToken p = b \<and> prefix (b # ts) (upcoming (nextToken p))"
proof -
  assume a: "prefix (a # b # ts) (upcoming p)"
  then have "curToken p = a" "peekToken p = b" by (simp_all add: upcoming_def)
  with prefix_upcoming_step[OF a] show ?thesis by simp
qed

lemma expectPeek_ok: "Type (peekToken q) = t \<Longrightarrow> expectPeek t q = (True, nextToken q)"
  by (simp add: expectPeek_def peekTokenIs_def)


text \<open>
  The loop over the tokens \<open>xs\<close> of an operand or of a comparison value that the closing
  parenthesis \<open>close\<close> ends: it returns, with their literals.
\<close>

lemma partsLoop_spec:
  assumes "prefix (xs @ [close]) (upcoming p)" "Type close = RPAREN"
    "list_all (\<lambda>t. Type t \<noteq> RPAREN) xs"
  shows "partsLoop parts p = Some (parts @ map Literal xs, (nextToken ^^ length xs) p)"
  using assms
proof (induction xs arbitrary: parts p)
  case Nil
  then have "curToken p = close" by (auto simp: upcoming_def)
  with Nil show ?case by (subst partsLoop.simps) simp
next
  case (Cons x xs)
  from prefix_upcoming_step[of x "xs @ [close]" p] Cons.prems(1)
  have cur: "curToken p = x" and nxt: "prefix (xs @ [close]) (upcoming (nextToken p))" by auto
  from Cons.prems(3) have x: "Type x \<noteq> RPAREN" and xs: "list_all (\<lambda>t. Type t \<noteq> RPAREN) xs"
    by auto
  from Cons.IH[OF nxt Cons.prems(2) xs, of "parts @ [Literal x]"] cur x
  show ?case by (subst partsLoop.simps) (simp add: funpow_swap1)
qed

lemma parseIfFlagOperator_accepts:
  assumes "prefix (op # v # rp # lb # rest) (upcoming q)"
    and "Type op = EQ" and "Type v = TRUE \<or> Type v = FALSE" and "Type rp = RPAREN"
    and "Type lb = LBRACE"
  shows "parseIfFlagOperator e q =
     (True, setComparisonValue (typeString (Type v)) (setOperator EQ e), (nextToken ^^ 4) q)"
proof -
  from ahead[OF assms(1)] have c0: "curToken q = op" "peekToken q = v"
    and p1: "prefix (v # rp # lb # rest) (upcoming (nextToken q))" by auto
  from ahead[OF p1] have c1: "curToken (nextToken q) = v" "peekToken (nextToken q) = rp"
    and p2: "prefix (rp # lb # rest) (upcoming (nextToken (nextToken q)))" by auto
  from p2 have c2: "peekToken (nextToken (nextToken q)) = lb"
    by (simp add: upcoming_def)
  have n: "(nextToken ^^ 4) q = nextToken (nextToken (nextToken (nextToken q)))"
    by (simp add: numeral_eq_Suc)
  from assms(2-5) c0 c1 c2 show ?thesis
    unfolding n
    by (auto simp: parseIfFlagOperator_def Let_def expectPeek_ok)
qed


lemma parseIfVarOperator_accepts:
  assumes "prefix (op # val @ [rp, lb]) (upcoming q)"
    and "relational (Type op)" and "val \<noteq> []" and "list_all (\<lambda>t. Type t \<noteq> RPAREN) val"
    and "Type rp = RPAREN" and "Type lb = LBRACE"
  shows "parseIfVarOperator e q =
     Some (True, setComparisonValue (strings_Join (map Literal val) '' '') (setOperator (Type op) e),
       (nextToken ^^ (length val + 3)) q)"
proof -
  from assms(3) obtain v0 vs where val: "val = v0 # vs" by (cases val) auto
  from assms(1) val have pre: "prefix (op # v0 # vs @ [rp, lb]) (upcoming q)" by simp
  from ahead[OF pre] have c0: "curToken q = op" "peekToken q = v0"
    and p1: "prefix (val @ [rp, lb]) (upcoming (nextToken q))" by (auto simp: val)
  from p1 have p1': "prefix (val @ [rp]) (upcoming (nextToken q))"
    by (auto simp: prefix_def)
  from assms(4) val have v0: "Type v0 \<noteq> RPAREN" by simp
  note loop = partsLoop_spec[OF p1' assms(5,4), of "[]"]
  define q2 where "q2 = (nextToken ^^ length val) (nextToken q)"
  have "prefix (drop (length val) (val @ [rp, lb])) (upcoming q2)"
    unfolding q2_def using p1
  proof (induction val arbitrary: q)
    case Nil
    then show ?case by simp
  next
    case (Cons a val)
    from prefix_upcoming_step[of a "val @ [rp, lb]" "nextToken q"] Cons.prems
    have "prefix (val @ [rp, lb]) (upcoming (nextToken (nextToken q)))" by simp
    from Cons.IH[OF this] show ?case by (simp add: funpow_swap1)
  qed
  then have "prefix [rp, lb] (upcoming q2)" by simp
  from ahead[OF this] have c2: "peekToken q2 = lb" by simp
  have n: "(nextToken ^^ (length val + 3)) q = nextToken (nextToken q2)"
    by (simp add: q2_def funpow_swap1 numeral_eq_Suc)
  from assms(2,6) c0 v0 loop c2 show ?thesis
    unfolding n q2_def[symmetric]
    by (auto simp: parseIfVarOperator_def relational_def Let_def expectPeek_ok q2_def)
qed


lemma prefix_advance:
  "prefix (xs @ ys) (upcoming q) \<Longrightarrow> prefix ys (upcoming ((nextToken ^^ length xs) q))"
proof (induction xs arbitrary: q)
  case Nil
  then show ?case by simp
next
  case (Cons x xs)
  from prefix_upcoming_step[of x "xs @ ys" q] Cons.prems
  have "prefix (xs @ ys) (upcoming (nextToken q))" by simp
  from Cons.IH[OF this] show ?case by (simp add: funpow_swap1)
qed

text \<open>
  The head of a condition: the kind, the opening parenthesis and the operand, up to the
  token after the operand's closing parenthesis.
\<close>

lemma condition_head:
  assumes "prefix (t0 # kind # lp # operand @ rp # rest) (upcoming p)"
    and "Type kind = FLAG \<or> Type kind = VAR" and "Type lp = LPAREN" and "operand \<noteq> []"
    and "list_all (\<lambda>t. Type t \<noteq> RPAREN) operand" and "Type rp = RPAREN"
  shows "parseIfConditionExpression ln p =
     (case parseIfOperator
             (ConditionExpression (Type kind) (strings_Join (map Literal operand) '' '')
                (OtherType []) [] None)
             ((nextToken ^^ (length operand + 4)) p) of
        None \<Rightarrow> None
      | Some (False, expression1, p3) \<Rightarrow> Some (None, p3)
      | Some (True, expression1, p3) \<Rightarrow>
          (case parseBlockStatement p3 of
             None \<Rightarrow> None
           | Some (body, p4) \<Rightarrow> Some (Some (setBody body expression1), p4)))"
    and "prefix rest (upcoming ((nextToken ^^ (length operand + 4)) p))"
proof -
  from assms(4) obtain o1 os where operand: "operand = o1 # os" by (cases operand) auto
  from ahead[OF assms(1)] have c: "peekToken p = kind"
    and p1: "prefix (kind # lp # operand @ rp # rest) (upcoming (nextToken p))" by auto
  define q0 where "q0 = nextToken p"
  from ahead[OF p1] have c0: "curToken q0 = kind" "peekToken q0 = lp"
    and p2: "prefix (lp # operand @ rp # rest) (upcoming (nextToken q0))"
    by (auto simp: q0_def)
  define q1 where "q1 = nextToken q0"
  from p2 operand have "prefix (lp # o1 # os @ rp # rest) (upcoming q1)" by (simp add: q1_def)
  from ahead[OF this] have c1: "peekToken q1 = o1"
    and p3: "prefix (operand @ rp # rest) (upcoming (nextToken q1))" by (auto simp: operand)
  define q2 where "q2 = nextToken q1"
  from p3 have "prefix ((operand @ [rp]) @ rest) (upcoming q2)" by (simp add: q2_def)
  then have p3': "prefix (operand @ [rp]) (upcoming q2)" using append_prefixD by blast
  note loop = partsLoop_spec[OF p3' assms(6,5), of "[]"]
  from assms(5) operand have o1: "Type o1 \<noteq> RPAREN" by simp
  have n: "(nextToken ^^ (length operand + 4)) p = nextToken ((nextToken ^^ length operand) q2)"
    by (simp add: q2_def q1_def q0_def funpow_swap1 numeral_eq_Suc)
  from prefix_advance[of operand "rp # rest" q2] p3
  have "prefix (rp # rest) (upcoming ((nextToken ^^ length operand) q2))" by (simp add: q2_def)
  from prefix_upcoming_step[OF this]
  show "prefix rest (upcoming ((nextToken ^^ (length operand + 4)) p))" by (simp add: n)
  from assms(2,3) c c0 c1 o1 loop
  show "parseIfConditionExpression ln p =
     (case parseIfOperator
             (ConditionExpression (Type kind) (strings_Join (map Literal operand) '' '')
                (OtherType []) [] None)
             ((nextToken ^^ (length operand + 4)) p) of
        None \<Rightarrow> None
      | Some (False, expression1, p3) \<Rightarrow> Some (None, p3)
      | Some (True, expression1, p3) \<Rightarrow>
          (case parseBlockStatement p3 of
             None \<Rightarrow> None
           | Some (body, p4) \<Rightarrow> Some (Some (setBody body expression1), p4)))"
    unfolding n
    by (auto simp: parseIfConditionExpression.simps[of ln p] peekTokenIs_def Let_def
          expectPeek_ok q0_def[symmetric] q1_def[symmetric] q2_def[symmetric])
qed

section \<open>Well-formed programs\<close>

text \<open>
  The parser after \<open>n\<close> further steps of \<^verbatim>\<open>nextToken\<close>, with the texts \<open>texts\<close> appended to the
  implicit texts it held.
\<close>

definition advance :: "nat \<Rightarrow> string list \<Rightarrow> parser \<Rightarrow> parser" where
  "advance n texts p = ((nextToken ^^ n) p)\<lparr>implicitTexts := implicitTexts p @ texts\<rparr>"

lemma implicitTexts_funpow [simp]: "implicitTexts ((nextToken ^^ n) p) = implicitTexts p"
  by (induction n) simp_all

lemma errors_funpow [simp]: "errors ((nextToken ^^ n) p) = errors p"
  by (induction n) simp_all

lemma steps_steps: "(nextToken ^^ m) ((nextToken ^^ n) p) = (nextToken ^^ (n + m)) p"
  by (metis add.commute comp_apply funpow_add)

lemma advance_none [simp]: "advance 0 [] p = p"
  by (simp add: advance_def)

lemma advance_tokens: "advance n [] p = (nextToken ^^ n) p"
  by (simp add: advance_def)

lemma nextToken_advance: "nextToken (advance n xs p) = advance (Suc n) xs p"
  by (simp add: advance_def)

lemma advance_advance: "advance m ys (advance n xs p) = advance (n + m) (xs @ ys) p"
  by (simp add: advance_def funpow_nextToken_implicitTexts funpow_add add.commute)

lemma implicitTexts_advance [simp]: "implicitTexts (advance n xs p) = implicitTexts p @ xs"
  by (simp add: advance_def)

lemma errors_advance [simp]: "errors (advance n xs p) = errors p"
  by (simp add: advance_def)

lemma upcoming_advance: "upcoming (advance n xs p) = upcoming ((nextToken ^^ n) p)"
  by (simp add: advance_def upcoming_def)

lemma prefix_advanced:
  "prefix (as @ bs) (upcoming p) \<Longrightarrow> length as = n \<Longrightarrow> prefix bs (upcoming (advance n xs p))"
  using prefix_advance[of as bs p] by (auto simp: upcoming_advance)

lemma tokens_advanced:
  assumes "prefix (as @ a # b # r) (upcoming p)" and "length as = n"
  shows "curToken (advance n xs p) = a" and "peekToken (advance n xs p) = b"
  using prefix_advanced[OF assms, of xs] by (simp_all add: upcoming_def)

text \<open>
  The input language, as token lists. \<open>stmtG k ts s xs\<close> says that the tokens \<open>ts\<close> are one
  statement, that \<open>s\<close> is its tree when \<open>k\<close> implicit texts have been found before it, and
  that \<open>xs\<close> are the values of the string literals in the argument lists of its commands,
  from left to right. A command is a name alone or a name with a parenthesised argument
  list; its arguments in the tree are those of \<open>commandArgs k\<close>, where the string literals
  carry the labels of \<open>k\<close>, \<open>k + 1\<close> and so on. An if statement is \<^verbatim>\<open>if (\<close> and a condition,
  any number of \<^verbatim>\<open>elif (\<close> and a condition, and possibly \<^verbatim>\<open>else { ... }\<close>. A condition
  (\<open>condG\<close>) is \<^verbatim>\<open>flag(operand) == TRUE\<close> or \<^verbatim>\<open>FALSE\<close>, or \<^verbatim>\<open>var(operand)\<close> with a relational
  operator and a value, then \<^verbatim>\<open>) { ... }\<close>. In a sequence (\<open>blockG\<close>, \<open>elifsG\<close>) every part
  starts with the number of texts that the parts before it have left. The token of a block
  in the tree is the first token after its opening brace (parser.go, line 143).
\<close>

inductive stmtG :: "nat \<Rightarrow> token list \<Rightarrow> statement \<Rightarrow> string list \<Rightarrow> bool"
  and blockG :: "nat \<Rightarrow> token list \<Rightarrow> statement list \<Rightarrow> string list \<Rightarrow> bool"
  and condG :: "nat \<Rightarrow> token list \<Rightarrow> conditionExpression \<Rightarrow> string list \<Rightarrow> bool"
  and elifsG :: "nat \<Rightarrow> token list \<Rightarrow> conditionExpression list \<Rightarrow> string list \<Rightarrow> bool"
where
  command:
    "Type t = IDENT \<Longrightarrow>
     stmtG k [t] (CommandStatement t \<lparr>idToken = t, idValue = Literal t\<rparr> []) []"
| call:
    "Type t = IDENT \<Longrightarrow> Type lp = LPAREN \<Longrightarrow> enclosed 0 body \<Longrightarrow> Type rp = RPAREN \<Longrightarrow>
     stmtG k (t # lp # body @ [rp])
       (CommandStatement t \<lparr>idToken = t, idValue = Literal t\<rparr> (commandArgs k body))
       (stringLiterals body)"
| ifS:
    "Type it = IF \<Longrightarrow> Type lp = LPAREN \<Longrightarrow> condG k cts c xs \<Longrightarrow>
     elifsG (k + length xs) ets es ys \<Longrightarrow>
     stmtG k (it # lp # cts @ ets) (IfStatement it c es None) (xs @ ys)"
| ifElse:
    "Type it = IF \<Longrightarrow> Type lp = LPAREN \<Longrightarrow> condG k cts c xs \<Longrightarrow>
     elifsG (k + length xs) ets es ys \<Longrightarrow> Type et = ELSE \<Longrightarrow> Type lb = LBRACE \<Longrightarrow>
     blockG (k + length xs + length ys) bts ss zs \<Longrightarrow> Type rb = RBRACE \<Longrightarrow>
     stmtG k (it # lp # cts @ ets @ et # lb # bts @ [rb])
       (IfStatement it c es (Some (BlockStatement (hd (bts @ [rb])) ss))) (xs @ ys @ zs)"
| blockNil: "blockG k [] [] []"
| blockCons:
    "stmtG k ts s xs \<Longrightarrow> blockG (k + length xs) us ss ys \<Longrightarrow>
     blockG k (ts @ us) (s # ss) (xs @ ys)"
| flagC:
    "Type kind = FLAG \<Longrightarrow> Type lp = LPAREN \<Longrightarrow> operand \<noteq> [] \<Longrightarrow>
     list_all (\<lambda>t. Type t \<noteq> RPAREN) operand \<Longrightarrow> Type rp = RPAREN \<Longrightarrow> Type op = EQ \<Longrightarrow>
     Type v = TRUE \<or> Type v = FALSE \<Longrightarrow> Type rp2 = RPAREN \<Longrightarrow> Type lb = LBRACE \<Longrightarrow>
     blockG k bts ss xs \<Longrightarrow> Type rb = RBRACE \<Longrightarrow>
     condG k (kind # lp # operand @ rp # op # v # rp2 # lb # bts @ [rb])
       (ConditionExpression FLAG (strings_Join (map Literal operand) '' '') EQ
          (typeString (Type v)) (Some (BlockStatement (hd (bts @ [rb])) ss))) xs"
| varC:
    "Type kind = VAR \<Longrightarrow> Type lp = LPAREN \<Longrightarrow> operand \<noteq> [] \<Longrightarrow>
     list_all (\<lambda>t. Type t \<noteq> RPAREN) operand \<Longrightarrow> Type rp = RPAREN \<Longrightarrow> relational (Type op) \<Longrightarrow>
     val \<noteq> [] \<Longrightarrow> list_all (\<lambda>t. Type t \<noteq> RPAREN) val \<Longrightarrow> Type rp2 = RPAREN \<Longrightarrow>
     Type lb = LBRACE \<Longrightarrow> blockG k bts ss xs \<Longrightarrow> Type rb = RBRACE \<Longrightarrow>
     condG k (kind # lp # operand @ rp # op # val @ rp2 # lb # bts @ [rb])
       (ConditionExpression VAR (strings_Join (map Literal operand) '' '') (Type op)
          (strings_Join (map Literal val) '' '') (Some (BlockStatement (hd (bts @ [rb])) ss))) xs"
| elifsNil: "elifsG k [] [] []"
| elifsCons:
    "Type et = ELSEIF \<Longrightarrow> Type lp = LPAREN \<Longrightarrow> condG k cts c xs \<Longrightarrow>
     elifsG (k + length xs) ets es ys \<Longrightarrow>
     elifsG k (et # lp # cts @ ets) (c # es) (xs @ ys)"

lemma stmtG_head:
  "stmtG k ts s xs \<Longrightarrow> \<exists>t r. ts = t # r \<and> (Type t = IDENT \<or> Type t = IF)"
  by (erule stmtG.cases) auto

lemma blockG_head:
  "blockG k ts ss xs \<Longrightarrow> ts = [] \<or> (\<exists>t r. ts = t # r \<and> (Type t = IDENT \<or> Type t = IF))"
  by (erule blockG.cases) (auto dest!: stmtG_head)

lemma condG_nonempty: "condG k ts c xs \<Longrightarrow> ts \<noteq> []"
  by (erule condG.cases) auto


text \<open>
  The parser builds the tree of the grammar. The steps of the proof come first, each under
  the hypothesis that the parts of the construct are parsed as the grammar says.
\<close>

lemma block_parsed_from:
  assumes IH: "\<forall>p rb tok acc. prefix (bts @ [rb]) (upcoming p) \<longrightarrow> Type rb = RBRACE \<longrightarrow>
        length (implicitTexts p) = k \<longrightarrow>
        blockLoop (BlockStatement tok acc) p =
          Some (Some (BlockStatement tok (acc @ ss)), advance (length bts) zs p)"
    and pre: "prefix (as @ bts @ rb # r) (upcoming p)" and n: "length as = n"
    and rb: "Type rb = RBRACE" and k: "length (implicitTexts p) + length xs = k"
  shows "parseBlockStatement (advance n xs p) =
     Some (Some (BlockStatement (hd (bts @ [rb])) ss), advance (n + length bts) (xs @ zs) p)"
proof -
  let ?q = "advance n xs p"
  from prefix_advanced[OF pre n, of xs] have a: "prefix (bts @ rb # r) (upcoming ?q)" .
  then have b: "prefix (bts @ [rb]) (upcoming ?q)"
    by (metis append.assoc append_Cons append_Nil append_prefixD)
  from a have c: "curToken ?q = hd (bts @ [rb])"
    by (cases bts) (auto simp: upcoming_def)
  from k have "length (implicitTexts ?q) = k" by simp
  from IH[rule_format, OF b rb this, of "curToken ?q" "[]"] c
  show ?thesis by (simp add: parse_simps(1) advance_advance)
qed


lemma split_last: "xs \<noteq> [] \<Longrightarrow> xs @ r = butlast xs @ last xs # r"
  by (metis append.assoc append_Cons append_Nil append_butlast_last_id)

lemma advance_one: "advance (Suc 0) [] p = nextToken p"
  by (simp add: advance_tokens)

lemma prefix_front: "prefix (as @ bs) cs \<Longrightarrow> prefix as cs"
  by (rule append_prefixD)

lemma flag_condition_parsed:
  assumes IH: "\<forall>p rb tok acc. prefix (bts @ [rb]) (upcoming p) \<longrightarrow> Type rb = RBRACE \<longrightarrow>
        length (implicitTexts p) = k \<longrightarrow>
        blockLoop (BlockStatement tok acc) p =
          Some (Some (BlockStatement tok (acc @ ss)), advance (length bts) xs p)"
    and ty: "Type kind = FLAG" "Type lp = LPAREN" "operand \<noteq> []"
      "list_all (\<lambda>t. Type t \<noteq> RPAREN) operand" "Type rp = RPAREN" "Type op = EQ"
      "Type v = TRUE \<or> Type v = FALSE" "Type rp2 = RPAREN" "Type lb = LBRACE" "Type rb = RBRACE"
    and pre: "prefix (t0 # kind # lp # operand @ rp # op # v # rp2 # lb # bts @ [rb]) (upcoming p)"
    and k: "length (implicitTexts p) = k"
  shows "parseIfConditionExpression ln p =
     Some (Some (ConditionExpression FLAG (strings_Join (map Literal operand) '' '') EQ
          (typeString (Type v)) (Some (BlockStatement (hd (bts @ [rb])) ss))),
       advance (length (kind # lp # operand @ rp # op # v # rp2 # lb # bts @ [rb])) xs p)"
proof -
  let ?q = "(nextToken ^^ (length operand + 4)) p"
  let ?e = "ConditionExpression (Type kind) (strings_Join (map Literal operand) '' '')
                (OtherType []) [] None"
  define q8 where "q8 = advance (length operand + 8) [] p"
  define qf where
    "qf = advance (length (kind # lp # operand @ rp # op # v # rp2 # lb # bts @ [rb])) xs p"
  have kind: "Type kind = FLAG \<or> Type kind = VAR" using ty(1) by simp
  note h = condition_head(1)[OF pre kind ty(2,3,4,5), of ln]
    condition_head(2)[OF pre kind ty(2,3,4,5)]
  have n: "length operand + 4 + 4 = length operand + 8" by simp
  have eq: "(nextToken ^^ 4) ?q = q8"
    unfolding steps_steps n q8_def advance_tokens ..
  note f = parseIfFlagOperator_accepts[OF h(2) ty(6,7,8,9), of ?e, unfolded eq]
  have o: "parseIfOperator ?e ?q =
      Some (True, setComparisonValue (typeString (Type v)) (setOperator EQ ?e), q8)"
    using f ty(1) by (simp add: parseIfOperator_def del: funpow.simps)
  have pre': "prefix ((t0 # kind # lp # operand @ [rp, op, v, rp2, lb]) @ bts @ rb # [])
      (upcoming p)"
    using pre by simp
  have "parseBlockStatement (advance (length operand + 8) [] p) =
      Some (Some (BlockStatement (hd (bts @ [rb])) ss),
        advance (length operand + 8 + length bts) ([] @ xs) p)"
    by (rule block_parsed_from[OF IH pre' _ ty(10)]) (simp_all add: k)
  moreover have "length operand + 8 + length bts =
      length (kind # lp # operand @ rp # op # v # rp2 # lb # bts @ [rb])" by simp
  ultimately
  have b: "parseBlockStatement q8 = Some (Some (BlockStatement (hd (bts @ [rb])) ss), qf)"
    by (simp only: q8_def qf_def append_Nil)
  have "parseIfConditionExpression ln p =
     Some (Some (ConditionExpression FLAG (strings_Join (map Literal operand) '' '') EQ
          (typeString (Type v)) (Some (BlockStatement (hd (bts @ [rb])) ss))), qf)"
    using o by (simp add: h(1) b ty(1) del: funpow.simps)
  then show ?thesis by (simp only: qf_def)
qed

lemma var_condition_parsed:
  assumes IH: "\<forall>p rb tok acc. prefix (bts @ [rb]) (upcoming p) \<longrightarrow> Type rb = RBRACE \<longrightarrow>
        length (implicitTexts p) = k \<longrightarrow>
        blockLoop (BlockStatement tok acc) p =
          Some (Some (BlockStatement tok (acc @ ss)), advance (length bts) xs p)"
    and ty: "Type kind = VAR" "Type lp = LPAREN" "operand \<noteq> []"
      "list_all (\<lambda>t. Type t \<noteq> RPAREN) operand" "Type rp = RPAREN" "relational (Type op)"
      "val \<noteq> []" "list_all (\<lambda>t. Type t \<noteq> RPAREN) val" "Type rp2 = RPAREN" "Type lb = LBRACE"
      "Type rb = RBRACE"
    and pre: "prefix (t0 # kind # lp # operand @ rp # op # val @ rp2 # lb # bts @ [rb]) (upcoming p)"
    and k: "length (implicitTexts p) = k"
  shows "parseIfConditionExpression ln p =
     Some (Some (ConditionExpression VAR (strings_Join (map Literal operand) '' '') (Type op)
          (strings_Join (map Literal val) '' '') (Some (BlockStatement (hd (bts @ [rb])) ss))),
       advance (length (kind # lp # operand @ rp # op # val @ rp2 # lb # bts @ [rb])) xs p)"
proof -
  let ?q = "(nextToken ^^ (length operand + 4)) p"
  let ?e = "ConditionExpression (Type kind) (strings_Join (map Literal operand) '' '')
                (OtherType []) [] None"
  define q8 where "q8 = advance (length operand + length val + 7) [] p"
  define qf where
    "qf = advance (length (kind # lp # operand @ rp # op # val @ rp2 # lb # bts @ [rb])) xs p"
  have kind: "Type kind = FLAG \<or> Type kind = VAR" using ty(1) by simp
  note h = condition_head(1)[OF pre kind ty(2,3,4,5), of ln]
    condition_head(2)[OF pre kind ty(2,3,4,5)]
  from h(2) have "prefix ((op # val @ [rp2, lb]) @ bts @ [rb]) (upcoming ?q)" by simp
  then have v: "prefix (op # val @ [rp2, lb]) (upcoming ?q)" by (rule prefix_front)
  have n: "length operand + 4 + (length val + 3) = length operand + length val + 7" by simp
  have eq: "(nextToken ^^ (length val + 3)) ?q = q8"
    unfolding steps_steps n q8_def advance_tokens ..
  note f = parseIfVarOperator_accepts[OF v ty(6,7,8,9,10), of ?e, unfolded eq]
  have o: "parseIfOperator ?e ?q =
      Some (True, setComparisonValue (strings_Join (map Literal val) '' '')
          (setOperator (Type op) ?e), q8)"
    using f ty(1) by (simp add: parseIfOperator_def del: funpow.simps)
  have pre': "prefix ((t0 # kind # lp # operand @ rp # op # val @ [rp2, lb]) @ bts @ rb # [])
      (upcoming p)"
    using pre by simp
  have "parseBlockStatement (advance (length operand + length val + 7) [] p) =
      Some (Some (BlockStatement (hd (bts @ [rb])) ss),
        advance (length operand + length val + 7 + length bts) ([] @ xs) p)"
    by (rule block_parsed_from[OF IH pre' _ ty(11)]) (simp_all add: k)
  moreover have "length operand + length val + 7 + length bts =
      length (kind # lp # operand @ rp # op # val @ rp2 # lb # bts @ [rb])" by simp
  ultimately
  have b: "parseBlockStatement q8 = Some (Some (BlockStatement (hd (bts @ [rb])) ss), qf)"
    by (simp only: q8_def qf_def append_Nil)
  have "parseIfConditionExpression ln p =
     Some (Some (ConditionExpression VAR (strings_Join (map Literal operand) '' '') (Type op)
          (strings_Join (map Literal val) '' '') (Some (BlockStatement (hd (bts @ [rb])) ss))), qf)"
    using o by (simp add: h(1) b ty(1) del: funpow.simps)
  then show ?thesis by (simp only: qf_def)
qed


lemma elif_parsed:
  assumes IHc: "\<forall>p t0 ln. prefix (t0 # cts) (upcoming p) \<longrightarrow> length (implicitTexts p) = k \<longrightarrow>
        parseIfConditionExpression ln p = Some (Some c, advance (length cts) xs p)"
    and IHe: "\<forall>p t0 next acc. prefix (t0 # ets @ [next]) (upcoming p) \<longrightarrow> Type next \<noteq> ELSEIF \<longrightarrow>
        length (implicitTexts p) = k + length xs \<longrightarrow>
        elifLoop acc p = Some (Some (acc @ es), advance (length ets) ys p)"
    and ty: "Type et = ELSEIF" "Type lp = LPAREN" "cts \<noteq> []"
    and pre: "prefix (t0 # (et # lp # cts @ ets) @ [next]) (upcoming p)"
    and nx: "Type next \<noteq> ELSEIF" and k: "length (implicitTexts p) = k"
  shows "elifLoop acc p =
     Some (Some (acc @ c # es), advance (length (et # lp # cts @ ets)) (xs @ ys) p)"
proof -
  define q2 where "q2 = advance 2 [] p"
  define q3 where "q3 = advance (2 + length cts) xs p"
  define qf where "qf = advance (length (et # lp # cts @ ets)) (xs @ ys) p"
  from pre have pk: "peekToken p = et" by (simp add: upcoming_def)
  have pre1: "prefix ([t0] @ et # lp # (cts @ ets @ [next])) (upcoming p)" using pre by simp
  have "peekToken (advance 1 [] p) = lp" by (rule tokens_advanced(2)[OF pre1]) simp
  then have pk1: "Type (peekToken (nextToken p)) = LPAREN"
    by (simp add: advance_tokens ty(2))
  have n2: "nextToken (nextToken p) = q2" by (simp add: q2_def advance_tokens numeral_2_eq_2)
  have pre2: "prefix ([t0, et] @ (lp # cts) @ (ets @ [next])) (upcoming p)" using pre by simp
  have "prefix ((lp # cts) @ (ets @ [next])) (upcoming q2)"
    unfolding q2_def by (rule prefix_advanced[OF pre2]) simp
  then have c2: "prefix (lp # cts) (upcoming q2)" by (rule prefix_front)
  have k2: "length (implicitTexts q2) = k" by (simp add: q2_def k)
  have "advance (length cts) xs q2 = q3"
    by (simp add: q2_def q3_def advance_advance)
  with IHc[rule_format, OF c2 k2]
  have c: "\<And>ln. parseIfConditionExpression ln q2 = Some (Some c, q3)" by simp
  have pre3: "prefix ((t0 # et # lp # butlast cts) @ (last cts # ets @ [next])) (upcoming p)"
    using pre split_last[OF ty(3), of "ets @ [next]"] by simp
  have e3: "prefix (last cts # ets @ [next]) (upcoming q3)"
    unfolding q3_def by (rule prefix_advanced[OF pre3]) (use ty(3) in simp)
  have k3: "length (implicitTexts q3) = k + length xs" by (simp add: q3_def k)
  have "advance (length ets) ys q3 = qf"
    by (simp add: q3_def qf_def advance_advance add.assoc)
  with IHe[rule_format, OF e3 nx k3, of "acc @ [c]"]
  have e: "elifLoop (acc @ [c]) q3 = Some (Some (acc @ c # es), qf)" by simp
  have "elifLoop acc p = Some (Some (acc @ c # es), qf)"
    by (simp add: parse_simps(5)[of acc p] pk ty(1) expectPeek_ok[OF pk1] n2 c e)
  then show ?thesis by (simp only: qf_def)
qed

lemma if_head_parsed:
  assumes IHc: "\<forall>p t0 ln. prefix (t0 # cts) (upcoming p) \<longrightarrow> length (implicitTexts p) = k \<longrightarrow>
        parseIfConditionExpression ln p = Some (Some c, advance (length cts) xs p)"
    and IHe: "\<forall>p t0 next acc. prefix (t0 # ets @ [next]) (upcoming p) \<longrightarrow> Type next \<noteq> ELSEIF \<longrightarrow>
        length (implicitTexts p) = k + length xs \<longrightarrow>
        elifLoop acc p = Some (Some (acc @ es), advance (length ets) ys p)"
    and ty: "Type it = IF" "Type lp = LPAREN" "cts \<noteq> []"
    and pre: "prefix ((it # lp # cts @ ets) @ nx # r) (upcoming p)"
    and nx: "Type nx \<noteq> ELSEIF" and k: "length (implicitTexts p) = k"
    and q2: "q2 = advance (1 + length cts) xs p"
    and q3: "q3 = advance (1 + length cts + length ets) (xs @ ys) p"
  shows "curToken p = it"
    and "expectPeek LPAREN p = (True, nextToken p)"
    and "parseIfConditionExpression ln (nextToken p) = Some (Some c, q2)"
    and "elifLoop [] q2 = Some (Some es, q3)"
    and "peekToken q3 = nx"
proof -
  from pre show "curToken p = it" by (simp add: upcoming_def)
  from pre have "peekToken p = lp" by (simp add: upcoming_def)
  then show "expectPeek LPAREN p = (True, nextToken p)"
    by (simp add: expectPeek_ok ty(2))
  have pre2: "prefix ([it] @ (lp # cts) @ (ets @ nx # r)) (upcoming p)" using pre by simp
  have "prefix ((lp # cts) @ (ets @ nx # r)) (upcoming (advance (Suc 0) [] p))"
    by (rule prefix_advanced[OF pre2]) simp
  then have c2: "prefix (lp # cts) (upcoming (nextToken p))"
    unfolding advance_one by (rule prefix_front)
  have k2: "length (implicitTexts (nextToken p)) = k" by (simp add: k)
  have "advance (length cts) xs (nextToken p) = q2"
    using advance_advance[of "length cts" xs 1 "[]" p] by (simp add: advance_tokens q2)
  with IHc[rule_format, OF c2 k2]
  show "parseIfConditionExpression ln (nextToken p) = Some (Some c, q2)"
    by simp
  have pre3: "prefix ((it # lp # butlast cts) @ (last cts # ets @ [nx]) @ r) (upcoming p)"
    using pre split_last[OF ty(3), of "ets @ nx # r"] by simp
  have "prefix ((last cts # ets @ [nx]) @ r) (upcoming q2)"
    unfolding q2 by (rule prefix_advanced[OF pre3]) (use ty(3) in simp)
  then have e3: "prefix (last cts # ets @ [nx]) (upcoming q2)"
    by (rule prefix_front)
  have k3: "length (implicitTexts q2) = k + length xs"
    by (simp add: k q2)
  from IHe[rule_format, OF e3 nx k3, of "[]"]
  show "elifLoop [] q2 = Some (Some es, q3)"
    by (simp add: advance_advance q2 q3)
  have "(it # lp # cts @ ets) @ nx # r =
      butlast (it # lp # cts @ ets) @ last (it # lp # cts @ ets) # nx # r"
    by (rule split_last) simp
  with pre have pre4:
    "prefix (butlast (it # lp # cts @ ets) @ last (it # lp # cts @ ets) # nx # r) (upcoming p)"
    by (simp only:)
  show "peekToken q3 = nx"
    unfolding q3 by (rule tokens_advanced(2)[OF pre4]) simp
qed

text \<open>
  Statements, statement sequences up to a closing brace, conditions and elif sequences of
  the grammar are parsed into their trees; the parser ends on the last token of the
  construct (for a sequence, on the token after it), and the implicit texts have grown by
  the string literals of the construct.
\<close>

lemma grammar_parsed:
  shows "stmtG k ts s xs \<Longrightarrow>
      \<forall>p next. prefix (ts @ [next]) (upcoming p) \<longrightarrow>
        Type next \<noteq> LPAREN \<and> Type next \<noteq> ELSEIF \<and> Type next \<noteq> ELSE \<longrightarrow>
        length (implicitTexts p) = k \<longrightarrow>
        parseStatement p = Some (Some s, advance (length ts - 1) xs p)"
    and "blockG k ts ss xs \<Longrightarrow>
      \<forall>p rb tok acc. prefix (ts @ [rb]) (upcoming p) \<longrightarrow> Type rb = RBRACE \<longrightarrow>
        length (implicitTexts p) = k \<longrightarrow>
        blockLoop (BlockStatement tok acc) p =
          Some (Some (BlockStatement tok (acc @ ss)), advance (length ts) xs p)"
    and "condG k ts c xs \<Longrightarrow>
      \<forall>p t0 ln. prefix (t0 # ts) (upcoming p) \<longrightarrow> length (implicitTexts p) = k \<longrightarrow>
        parseIfConditionExpression ln p = Some (Some c, advance (length ts) xs p)"
    and "elifsG k ts es xs \<Longrightarrow>
      \<forall>p t0 next acc. prefix (t0 # ts @ [next]) (upcoming p) \<longrightarrow> Type next \<noteq> ELSEIF \<longrightarrow>
        length (implicitTexts p) = k \<longrightarrow>
        elifLoop acc p = Some (Some (acc @ es), advance (length ts) xs p)"
proof (induct rule: stmtG_blockG_condG_elifsG.inducts)
  case (command t k)
  show ?case
  proof (intro allI impI)
    fix p after
    assume pre: "prefix ([t] @ [after]) (upcoming p)"
      and nx: "Type after \<noteq> LPAREN \<and> Type after \<noteq> ELSEIF \<and> Type after \<noteq> ELSE"
    from pre have "curToken p = t" "peekToken p = after" by (simp_all add: upcoming_def)
    with nx command show "parseStatement p =
        Some (Some (CommandStatement t \<lparr>idToken = t, idValue = Literal t\<rparr> []),
          advance (length [t] - 1) [] p)"
      by (simp add: parse_simps(3)[of p] parseCommandStatement_def peekTokenIs_def)
  qed
next
  case (call t lp body rp k)
  show ?case
  proof (intro allI impI)
    fix p after
    assume pre: "prefix ((t # lp # body @ [rp]) @ [after]) (upcoming p)"
      and k: "length (implicitTexts p) = k"
    from pre have cur: "curToken p = t" and pk: "peekToken p = lp"
      and "prefix ((body @ [rp]) @ [after]) (pending (l p))"
      by (simp_all add: upcoming_def)
    then have b: "prefix (body @ [rp]) (pending (l p))" using prefix_front by blast
    from pk call(2) have pk': "Type (peekToken p) = LPAREN" by simp
    note spec = parseCommandStatement_spec[OF pk' b call(4,3)]
    show "parseStatement p =
        Some (Some (CommandStatement t \<lparr>idToken = t, idValue = Literal t\<rparr> (commandArgs k body)),
          advance (length (t # lp # body @ [rp]) - 1) (stringLiterals body) p)"
      using call(1) by (simp add: parse_simps(3)[of p] spec cur k advance_def)
  qed
next
  case (ifS it lp k cts c xs ets es ys)
  show ?case
  proof (intro allI impI)
    fix p after
    assume pre: "prefix ((it # lp # cts @ ets) @ [after]) (upcoming p)"
      and nx: "Type after \<noteq> LPAREN \<and> Type after \<noteq> ELSEIF \<and> Type after \<noteq> ELSE"
      and k: "length (implicitTexts p) = k"
    from nx have nx1: "Type after \<noteq> ELSEIF" and nx2: "Type after \<noteq> ELSE" by simp_all
    define q2 where "q2 = advance (1 + length cts) xs p"
    define q3 where "q3 = advance (1 + length cts + length ets) (xs @ ys) p"
    note h = if_head_parsed[OF ifS(4) ifS(6) ifS(1,2) condG_nonempty[OF ifS(3)] pre nx1 k
        q2_def q3_def]
    have "parseStatement p = Some (Some (IfStatement it c es None), q3)"
      using ifS(1) nx2
      by (simp add: parse_simps(3)[of p] parse_simps(4)[of p] h)
    then show "parseStatement p =
        Some (Some (IfStatement it c es None),
          advance (length (it # lp # cts @ ets) - 1) (xs @ ys) p)"
      by (simp add: q3_def)
  qed
next
  case (ifElse it lp k cts c xs ets es ys et lb bts ss zs rb)
  show ?case
  proof (intro allI impI)
    fix p after
    assume pre0: "prefix ((it # lp # cts @ ets @ et # lb # bts @ [rb]) @ [after]) (upcoming p)"
      and k: "length (implicitTexts p) = k"
    define q2 where "q2 = advance (1 + length cts) xs p"
    define q3 where "q3 = advance (1 + length cts + length ets) (xs @ ys) p"
    define q4 where "q4 = advance (2 + length cts + length ets) (xs @ ys) p"
    define q6 where "q6 = advance (4 + length cts + length ets) (xs @ ys) p"
    define qf where
      "qf = advance (length (it # lp # cts @ ets @ et # lb # bts @ [rb]) - 1) (xs @ ys @ zs) p"
    from pre0 have pre: "prefix ((it # lp # cts @ ets) @ et # lb # bts @ [rb, after]) (upcoming p)"
      by simp
    from ifElse(7) have nx1: "Type et \<noteq> ELSEIF" by simp
    note h = if_head_parsed[OF ifElse(4) ifElse(6) ifElse(1,2) condG_nonempty[OF ifElse(3)]
        pre nx1 k q2_def q3_def]
    have "Suc (1 + length cts + length ets) = 2 + length cts + length ets" by simp
    then have n4: "nextToken q3 = q4"
      by (simp only: q3_def q4_def nextToken_advance)
    have "peekToken q4 = lb"
      unfolding q4_def by (rule tokens_advanced(2)[OF pre]) simp
    then have e: "expectPeek LBRACE q4 = (True, nextToken q4)"
      by (simp add: expectPeek_ok ifElse(8))
    have "Suc (Suc (2 + length cts + length ets)) = 4 + length cts + length ets" by simp
    then have n6: "nextToken (nextToken q4) = q6"
      by (simp only: q4_def q6_def nextToken_advance)
    have preb: "prefix ((it # lp # cts @ ets @ [et, lb]) @ bts @ rb # [after]) (upcoming p)"
      using pre0 by simp
    have "parseBlockStatement (advance (4 + length cts + length ets) (xs @ ys) p) =
        Some (Some (BlockStatement (hd (bts @ [rb])) ss),
          advance (4 + length cts + length ets + length bts) ((xs @ ys) @ zs) p)"
      by (rule block_parsed_from[OF ifElse(10) preb _ ifElse(11)]) (simp_all add: k)
    moreover have "4 + length cts + length ets + length bts =
        length (it # lp # cts @ ets @ et # lb # bts @ [rb]) - 1" by simp
    ultimately have b: "parseBlockStatement q6 =
        Some (Some (BlockStatement (hd (bts @ [rb])) ss), qf)"
      by (simp only: q6_def qf_def append_assoc)
    have "parseStatement p =
        Some (Some (IfStatement it c es (Some (BlockStatement (hd (bts @ [rb])) ss))), qf)"
      using ifElse(1,7)
      by (simp add: parse_simps(3)[of p] parse_simps(4)[of p] h n4 e n6 b)
    then show "parseStatement p =
        Some (Some (IfStatement it c es (Some (BlockStatement (hd (bts @ [rb])) ss))),
          advance (length (it # lp # cts @ ets @ et # lb # bts @ [rb]) - 1) (xs @ ys @ zs) p)"
      by (simp only: qf_def)
  qed
next
  case (blockNil k)
  show ?case
  proof (intro allI impI)
    fix p rb tok acc
    assume "prefix ([] @ [rb]) (upcoming p)" and "Type rb = RBRACE"
    then have "Type (curToken p) = RBRACE" by (auto simp: upcoming_def)
    then show "blockLoop (BlockStatement tok acc) p =
        Some (Some (BlockStatement tok (acc @ [])), advance (length []) [] p)"
      by (simp add: parse_simps(2)[of _ p])
  qed
next
  case (blockCons k ts s xs us ss ys)
  show ?case
  proof (intro allI impI)
    fix p rb tok acc
    assume pre: "prefix ((ts @ us) @ [rb]) (upcoming p)" and rb: "Type rb = RBRACE"
      and k: "length (implicitTexts p) = k"
    define q1 where "q1 = advance (length ts - 1) xs p"
    define q2 where "q2 = advance (length ts) xs p"
    from stmtG_head[OF blockCons(1)] obtain t r where
      ts: "ts = t # r" and t: "Type t = IDENT \<or> Type t = IF" by blast
    from pre ts have cur: "curToken p = t" by (simp add: upcoming_def)
    from blockG_head[OF blockCons(3)] rb obtain nx r' where
      nx: "us @ [rb] = nx # r'" and nxt: "Type nx = IDENT \<or> Type nx = IF \<or> Type nx = RBRACE"
      by (cases us) auto
    from pre nx have "prefix ((ts @ [nx]) @ r') (upcoming p)" by simp
    then have pre1: "prefix (ts @ [nx]) (upcoming p)" by (rule prefix_front)
    from nxt have "Type nx \<noteq> LPAREN \<and> Type nx \<noteq> ELSEIF \<and> Type nx \<noteq> ELSE" by auto
    from blockCons(2)[rule_format, OF pre1 this k]
    have s: "parseStatement p = Some (Some s, q1)" by (simp add: q1_def)
    have n: "nextToken q1 = q2" using ts by (simp add: q1_def q2_def nextToken_advance)
    from pre have "prefix (ts @ (us @ [rb])) (upcoming p)" by simp
    from prefix_advanced[OF this refl, of xs]
    have pre2: "prefix (us @ [rb]) (upcoming q2)" by (simp add: q2_def)
    have k2: "length (implicitTexts q2) = k + length xs" by (simp add: q2_def k)
    from blockCons(4)[rule_format, OF pre2 rb k2, of tok "acc @ [s]"]
    have b: "blockLoop (BlockStatement tok (acc @ [s])) q2 =
        Some (Some (BlockStatement tok (acc @ s # ss)), advance (length (ts @ us)) (xs @ ys) p)"
      by (simp add: q2_def advance_advance)
    from t cur have "Type (curToken p) \<noteq> RBRACE" "Type (curToken p) \<noteq> EOF" by auto
    then show "blockLoop (BlockStatement tok acc) p =
        Some (Some (BlockStatement tok (acc @ s # ss)), advance (length (ts @ us)) (xs @ ys) p)"
      by (simp add: parse_simps(2)[of _ p] s n b)
  qed
next
  case (flagC kind lp operand rp op v rp2 lb k bts ss xs rb)
  show ?case
  proof (intro allI impI)
    fix p t0 ln
    assume pre: "prefix (t0 # kind # lp # operand @ rp # op # v # rp2 # lb # bts @ [rb])
        (upcoming p)"
      and k: "length (implicitTexts p) = k"
    show "parseIfConditionExpression ln p =
        Some (Some (ConditionExpression FLAG (strings_Join (map Literal operand) '' '') EQ
            (typeString (Type v)) (Some (BlockStatement (hd (bts @ [rb])) ss))),
          advance (length (kind # lp # operand @ rp # op # v # rp2 # lb # bts @ [rb])) xs p)"
      by (rule flag_condition_parsed[OF flagC(11) flagC(1-9) flagC(12) pre k])
  qed
next
  case (varC kind lp operand rp op val rp2 lb k bts ss xs rb)
  show ?case
  proof (intro allI impI)
    fix p t0 ln
    assume pre: "prefix (t0 # kind # lp # operand @ rp # op # val @ rp2 # lb # bts @ [rb])
        (upcoming p)"
      and k: "length (implicitTexts p) = k"
    show "parseIfConditionExpression ln p =
        Some (Some (ConditionExpression VAR (strings_Join (map Literal operand) '' '') (Type op)
            (strings_Join (map Literal val) '' '') (Some (BlockStatement (hd (bts @ [rb])) ss))),
          advance (length (kind # lp # operand @ rp # op # val @ rp2 # lb # bts @ [rb])) xs p)"
      by (rule var_condition_parsed[OF varC(12) varC(1-10) varC(13) pre k])
  qed
next
  case (elifsNil k)
  show ?case
  proof (intro allI impI)
    fix p t0 after acc
    assume "prefix (t0 # [] @ [after]) (upcoming p)" and "Type after \<noteq> ELSEIF"
    then have "Type (peekToken p) \<noteq> ELSEIF" by (auto simp: upcoming_def)
    then show "elifLoop acc p = Some (Some (acc @ []), advance (length []) [] p)"
      by (simp add: parse_simps(5)[of acc p])
  qed
next
  case (elifsCons et lp k cts c xs ets es ys)
  show ?case
  proof (intro allI impI)
    fix p t0 after acc
    assume pre: "prefix (t0 # (et # lp # cts @ ets) @ [after]) (upcoming p)"
      and nx: "Type after \<noteq> ELSEIF" and k: "length (implicitTexts p) = k"
    show "elifLoop acc p =
        Some (Some (acc @ c # es), advance (length (et # lp # cts @ ets)) (xs @ ys) p)"
      by (rule elif_parsed[OF elifsCons(4) elifsCons(6) elifsCons(1,2)
            condG_nonempty[OF elifsCons(3)] pre nx k])
  qed
qed


text \<open>
  Top-level statements (\<^verbatim>\<open>script name { ... }\<close> and \<^verbatim>\<open>raw name `...`\<close>) and programs, in the
  same way.
\<close>

inductive topG :: "nat \<Rightarrow> token list \<Rightarrow> statement \<Rightarrow> string list \<Rightarrow> bool" where
  scriptT:
    "Type st = SCRIPT \<Longrightarrow> Type name = IDENT \<Longrightarrow> Type lb = LBRACE \<Longrightarrow> blockG k bts ss xs \<Longrightarrow>
     Type rb = RBRACE \<Longrightarrow>
     topG k (st # name # lb # bts @ [rb])
       (ScriptStatement st \<lparr>idToken = name, idValue = Literal name\<rparr>
          (Some (BlockStatement (hd (bts @ [rb])) ss))) xs"
| rawT:
    "Type rt = RAW \<or> Type rt = RAWGLOBAL \<Longrightarrow> Type name = IDENT \<Longrightarrow> Type rs = RAWSTRING \<Longrightarrow>
     topG k [rt, name, rs]
       (RawStatement rt (Type rt = RAWGLOBAL) \<lparr>idToken = name, idValue = Literal name\<rparr>
          (Literal rs)) []"

inductive programG :: "nat \<Rightarrow> token list \<Rightarrow> statement list \<Rightarrow> string list \<Rightarrow> bool" where
  programNil: "programG k [] [] []"
| programCons:
    "topG k ts s xs \<Longrightarrow> programG (k + length xs) us ss ys \<Longrightarrow>
     programG k (ts @ us) (s # ss) (xs @ ys)"

lemma topG_head:
  "topG k ts s xs \<Longrightarrow>
     \<exists>t r. ts = t # r \<and> (Type t = SCRIPT \<or> Type t = RAW \<or> Type t = RAWGLOBAL)"
  by (erule topG.cases) auto

lemma top_level_parsed:
  assumes "topG k ts s xs" and "prefix ts (upcoming p)" and "length (implicitTexts p) = k"
  shows "parseTopLevelStatement p = Some (Some s, advance (length ts - 1) xs p)"
  using assms
proof (cases rule: topG.cases)
  case (scriptT st name lb bts ss rb)
  define q3 where "q3 = advance 3 [] p"
  define qf where "qf = advance (length ts - 1) xs p"
  from assms(2) scriptT(1) have pre: "prefix (st # name # lb # bts @ [rb]) (upcoming p)" by simp
  then have cur: "curToken p = st" and pk: "peekToken p = name" by (simp_all add: upcoming_def)
  from pk scriptT(4) have e1: "expectPeek IDENT p = (True, nextToken p)"
    by (simp add: expectPeek_ok)
  from pre have pre1: "prefix ([st] @ name # lb # bts @ [rb]) (upcoming p)" by simp
  have c1: "curToken (nextToken p) = name" and "peekToken (nextToken p) = lb"
    using tokens_advanced[OF pre1, of "Suc 0" "[]"] by (simp_all add: advance_one)
  then have e2: "expectPeek LBRACE (nextToken p) = (True, nextToken (nextToken p))"
    by (simp add: expectPeek_ok scriptT(5))
  have n3: "nextToken (nextToken (nextToken p)) = q3"
    by (simp add: q3_def advance_tokens numeral_3_eq_3)
  from pre have preb: "prefix ([st, name, lb] @ bts @ rb # []) (upcoming p)" by simp
  have "parseBlockStatement (advance 3 [] p) =
      Some (Some (BlockStatement (hd (bts @ [rb])) ss), advance (3 + length bts) ([] @ xs) p)"
    by (rule block_parsed_from[OF grammar_parsed(2)[OF scriptT(6)] preb _ scriptT(7)])
       (simp_all add: assms(3))
  moreover have "3 + length bts = length ts - 1" by (simp add: scriptT(1))
  ultimately have b: "parseBlockStatement q3 =
      Some (Some (BlockStatement (hd (bts @ [rb])) ss), qf)"
    by (simp only: q3_def qf_def append_Nil)
  have "parseTopLevelStatement p = Some (Some s, qf)"
    by (simp add: parseTopLevelStatement_def parseScriptStatement_def cur scriptT(2,3) e1 e2 c1
          pk n3 b)
  then show ?thesis by (simp only: qf_def)
next
  case (rawT rt name rs)
  from assms(2) rawT(1) have pre: "prefix [rt, name, rs] (upcoming p)" by simp
  then have cur: "curToken p = rt" and pk: "peekToken p = name" by (simp_all add: upcoming_def)
  from pk rawT(5) have e1: "expectPeek IDENT p = (True, nextToken p)"
    by (simp add: expectPeek_ok)
  from pre have pre1: "prefix ([rt] @ name # rs # []) (upcoming p)" by simp
  have c1: "curToken (nextToken p) = name" and p1: "peekToken (nextToken p) = rs"
    using tokens_advanced[OF pre1, of "Suc 0" "[]"] by (simp_all add: advance_one)
  then have e2: "expectPeek RAWSTRING (nextToken p) = (True, nextToken (nextToken p))"
    by (simp add: expectPeek_ok rawT(6))
  from pre have pre2: "prefix ([rt, name] @ rs # []) (upcoming p)" by simp
  define qf where "qf = advance (length ts - 1) xs p"
  have n2: "nextToken (nextToken p) = qf"
    by (simp add: qf_def rawT(1,3) advance_tokens numeral_2_eq_2)
  have c2: "curToken qf = rs"
    using prefix_advanced[OF pre2, of 2 "[]"]
    by (simp add: n2[symmetric] advance_tokens numeral_2_eq_2 upcoming_def)
  have "Type rt \<noteq> SCRIPT" using rawT(4) by auto
  then have "parseTopLevelStatement p = Some (Some s, qf)"
    using rawT(4)
    by (simp add: parseTopLevelStatement_def parseRawStatement_def cur rawT(2) e1 e2 c1 pk p1
          n2 c2)
  then show ?thesis by (simp only: qf_def)
qed


text \<open>
  The tokens in front of the parser are \<open>ts\<close>, and after them the input ends.
\<close>

definition streamIs :: "token list \<Rightarrow> parser \<Rightarrow> bool" where
  "streamIs ts p = (\<exists>m. upcoming p = ts @ replicate m (eofToken (l p)))"

lemma streamIs_New: "streamIs ts (New (lexerOf ts n))"
proof (cases ts)
  case Nil
  have "upcoming (New (lexerOf [] n)) = [] @ replicate 2 (eofToken (l (New (lexerOf [] n))))"
    by (simp add: upcoming_def state_defs numeral_2_eq_2)
  with Nil show ?thesis unfolding streamIs_def by blast
next
  case (Cons a r)
  show ?thesis
  proof (cases r)
    case Nil
    have "upcoming (New (lexerOf [a] n)) = [a] @ replicate 1 (eofToken (l (New (lexerOf [a] n))))"
      by (simp add: upcoming_def state_defs)
    with Cons Nil show ?thesis unfolding streamIs_def by blast
  next
    case (Cons b r')
    have "upcoming (New (lexerOf (a # b # r') n)) =
        (a # b # r') @ replicate 0 (eofToken (l (New (lexerOf (a # b # r') n))))"
      by (simp add: upcoming_def state_defs)
    with \<open>ts = a # r\<close> Cons show ?thesis unfolding streamIs_def by blast
  qed
qed

lemma streamIs_step:
  assumes "streamIs (t # ts) p"
  shows "streamIs ts (nextToken p)"
proof -
  from assms obtain m where m: "upcoming p = (t # ts) @ replicate m (eofToken (l p))"
    unfolding streamIs_def by blast
  show ?thesis
  proof (cases "pending (l p)")
    case Nil
    then have "upcoming (nextToken p) = tl (upcoming p) @ [eofToken (l p)]"
      and "eofToken (l (nextToken p)) = eofToken (l p)"
      by (simp_all add: upcoming_def nextToken_def NextToken_def)
    with m have "upcoming (nextToken p) = ts @ replicate (Suc m) (eofToken (l (nextToken p)))"
      by (simp add: replicate_append_same)
    then show ?thesis unfolding streamIs_def by blast
  next
    case (Cons x r)
    then have "upcoming (nextToken p) = tl (upcoming p)"
      and "eofToken (l (nextToken p)) = eofToken (l p)"
      by (simp_all add: upcoming_def nextToken_def NextToken_def eofToken_def)
    with m have "upcoming (nextToken p) = ts @ replicate m (eofToken (l (nextToken p)))"
      by simp
    then show ?thesis unfolding streamIs_def by blast
  qed
qed

lemma streamIs_steps: "streamIs (as @ bs) p \<Longrightarrow> streamIs bs ((nextToken ^^ length as) p)"
proof (induction as arbitrary: p)
  case Nil
  then show ?case by simp
next
  case (Cons a as)
  from Cons.prems have "streamIs (as @ bs) (nextToken p)" by (simp add: streamIs_step)
  from Cons.IH[OF this] show ?case by (simp add: funpow_swap1)
qed

lemma streamIs_advanced:
  "streamIs (as @ bs) p \<Longrightarrow> length as = n \<Longrightarrow> streamIs bs (advance n xs p)"
  using streamIs_steps[of as bs p] by (auto simp: streamIs_def advance_def upcoming_def)

lemma streamIs_prefix: "streamIs (as @ bs) p \<Longrightarrow> prefix as (upcoming p)"
  by (auto simp: streamIs_def)

lemma streamIs_end: "streamIs [] p \<Longrightarrow> Type (curToken p) = EOF"
proof -
  assume "streamIs [] p"
  then obtain m where m: "upcoming p = replicate m (eofToken (l p))"
    unfolding streamIs_def by auto
  then have "curToken p \<in> set (replicate m (eofToken (l p)))"
    by (metis list.set_intros(1) upcoming_def)
  then show ?thesis by (auto simp: eofToken_def)
qed

lemma program_parsed:
  "programG k ts ss xs \<Longrightarrow>
     \<forall>p prog. streamIs ts p \<longrightarrow> errors p = [] \<longrightarrow> length (implicitTexts p) = k \<longrightarrow>
       programLoop prog p =
         Some (Some (prog\<lparr>TopLevelStatements := TopLevelStatements prog @ ss\<rparr>),
           advance (length ts) xs p)"
proof (induct rule: programG.induct)
  case (programNil k)
  show ?case
    by (auto simp: programLoop.simps[of _ p for p] dest: streamIs_end)
next
  case (programCons k ts s xs us ss ys)
  show ?case
  proof (intro allI impI)
    fix p prog
    assume st: "streamIs (ts @ us) p" and er: "errors p = []"
      and k: "length (implicitTexts p) = k"
    define q1 where "q1 = advance (length ts - 1) xs p"
    define q2 where "q2 = advance (length ts) xs p"
    from topG_head[OF programCons(1)] obtain t r where
      ts: "ts = t # r" and t: "Type t = SCRIPT \<or> Type t = RAW \<or> Type t = RAWGLOBAL" by blast
    note pre = streamIs_prefix[OF st]
    with ts have "curToken p = t" by (simp add: upcoming_def)
    with t have cur: "Type (curToken p) \<noteq> EOF" by auto
    from top_level_parsed[OF programCons(1) pre k]
    have s: "parseTopLevelStatement p = Some (Some s, q1)" by (simp add: q1_def)
    have e1: "errors q1 = []" by (simp add: q1_def er)
    have n: "nextToken q1 = q2" using ts by (simp add: q1_def q2_def nextToken_advance)
    from streamIs_advanced[OF st refl, of xs] have st2: "streamIs us q2" by (simp add: q2_def)
    have e2: "errors q2 = []" by (simp add: q2_def er)
    have k2: "length (implicitTexts q2) = k + length xs" by (simp add: q2_def k)
    from programCons(3)[rule_format, OF st2 e2 k2,
        of "prog\<lparr>TopLevelStatements := TopLevelStatements prog @ [s]\<rparr>"]
    have b: "programLoop (prog\<lparr>TopLevelStatements := TopLevelStatements prog @ [s]\<rparr>) q2 =
        Some (Some (prog\<lparr>TopLevelStatements := TopLevelStatements prog @ s # ss\<rparr>),
          advance (length (ts @ us)) (xs @ ys) p)"
      by (simp add: q2_def advance_advance)
    show "programLoop prog p =
        Some (Some (prog\<lparr>TopLevelStatements := TopLevelStatements prog @ s # ss\<rparr>),
          advance (length (ts @ us)) (xs @ ys) p)"
      by (simp add: programLoop.simps[of prog p] cur s e1 n b)
  qed
qed

lemma implicitTexts_New [simp]: "implicitTexts (New lx) = []"
  by (simp add: New_def)

lemma parse_program_grammar:
  assumes "programG 0 ts stmts texts"
  shows "ParseProgram (New (lexerOf ts n)) =
     Some (Some \<lparr>TopLevelStatements = stmts, Texts = implicitTextEntries texts\<rparr>,
       advance (length ts) texts (New (lexerOf ts n)))"
proof -
  let ?p = "New (lexerOf ts n)"
  have p: "?p\<lparr>implicitTexts := []\<rparr> = ?p" by simp
  from program_parsed[OF assms, rule_format, OF streamIs_New, of n
      "\<lparr>TopLevelStatements = [], Texts = []\<rparr>"]
  have L: "programLoop \<lparr>TopLevelStatements = [], Texts = []\<rparr> ?p =
      Some (Some \<lparr>TopLevelStatements = stmts, Texts = []\<rparr>, advance (length ts) texts ?p)"
    by simp
  show ?thesis
    by (simp add: ParseProgram_def p L enumerate_entries)
qed

text \<open>
  Claim C2. For every program of the grammar, \<^verbatim>\<open>ParseProgram\<close> returns the tree of the
  grammar and the texts of the grammar: the argument lists of the returned commands are
  those of \<open>commandArgs k\<close> where \<open>k\<close> is the number of string literals in the commands
  before (rule \<open>call\<close>; by \<open>relabel_labels\<close> the literals of the command are replaced, from
  left to right, by the labels of \<open>k\<close>, \<open>k + 1\<close> and so on), and the returned \<^verbatim>\<open>Texts\<close> are the
  values of all these literals in the order of the program, the value at index \<open>i\<close> under
  the label of \<open>i\<close>, so that a label in an argument names the entry of the literal it
  replaces. No two entries share a name.
\<close>

theorem program_texts_labelled:
  assumes "programG 0 ts stmts texts"
  shows "ParseProgram (New (lexerOf ts n)) =
       Some (Some \<lparr>TopLevelStatements = stmts, Texts = implicitTextEntries texts\<rparr>,
         advance (length ts) texts (New (lexerOf ts n))) \<and>
     map Name (implicitTextEntries texts) = map getImplicitTextLabel [0..<length texts] \<and>
     map Value (implicitTextEntries texts) = texts \<and>
     distinct (map Name (implicitTextEntries texts))"
proof -
  have "map Name (implicitTextEntries texts) = map getImplicitTextLabel [0..<length texts]"
    by (simp add: implicitTextEntries_def comp_def)
  moreover have "map Value (implicitTextEntries texts) = texts"
    by (simp add: implicitTextEntries_def comp_def map_nth)
  ultimately show ?thesis
    using parse_program_grammar[OF assms, of n] distinct_entry_names[of texts] by simp
qed

text \<open>
  Two scripts: \<^verbatim>\<open>script First { msgbox("Hello") }\<close> and
  \<^verbatim>\<open>script Second { if (flag(FLAG_A) == TRUE) { msgbox("World", "Again") } }\<close>. The two
  literals of the second command become \<^verbatim>\<open>Text_1\<close> and \<^verbatim>\<open>Text_2\<close>.
\<close>

definition twoScripts :: "token list" where
  "twoScripts =
     [tk SCRIPT ''script'' 1, tk IDENT ''First'' 1, tk LBRACE ''{'' 1,
      tk IDENT ''msgbox'' 2, tk LPAREN ''('' 2, tk STRING ''Hello'' 2, tk RPAREN '')'' 2,
      tk RBRACE ''}'' 3,
      tk SCRIPT ''script'' 4, tk IDENT ''Second'' 4, tk LBRACE ''{'' 4,
      tk IF ''if'' 5, tk LPAREN ''('' 5, tk FLAG ''flag'' 5, tk LPAREN ''('' 5,
      tk IDENT ''FLAG_A'' 5, tk RPAREN '')'' 5, tk EQ ''=='' 5, tk TRUE ''TRUE'' 5,
      tk RPAREN '')'' 5, tk LBRACE ''{'' 5,
      tk IDENT ''msgbox'' 6, tk LPAREN ''('' 6, tk STRING ''World'' 6, tk COMMA '','' 6,
      tk STRING ''Again'' 6, tk RPAREN '')'' 6,
      tk RBRACE ''}'' 7,
      tk RBRACE ''}'' 8]"

definition firstCommand :: statement where
  "firstCommand =
     CommandStatement (tk IDENT ''msgbox'' 2)
       \<lparr>idToken = tk IDENT ''msgbox'' 2, idValue = ''msgbox''\<rparr> [''Text_0'']"

definition secondCommand :: statement where
  "secondCommand =
     CommandStatement (tk IDENT ''msgbox'' 6)
       \<lparr>idToken = tk IDENT ''msgbox'' 6, idValue = ''msgbox''\<rparr> [''Text_1'', ''Text_2'']"

definition twoScriptsTree :: "statement list" where
  "twoScriptsTree =
     [ScriptStatement (tk SCRIPT ''script'' 1)
        \<lparr>idToken = tk IDENT ''First'' 1, idValue = ''First''\<rparr>
        (Some (BlockStatement (tk IDENT ''msgbox'' 2) [firstCommand])),
      ScriptStatement (tk SCRIPT ''script'' 4)
        \<lparr>idToken = tk IDENT ''Second'' 4, idValue = ''Second''\<rparr>
        (Some (BlockStatement (tk IF ''if'' 5)
           [IfStatement (tk IF ''if'' 5)
              (ConditionExpression FLAG ''FLAG_A'' EQ ''TRUE''
                 (Some (BlockStatement (tk IDENT ''msgbox'' 6) [secondCommand])))
              [] None]))]"

lemma label_simps:
  "getImplicitTextLabel 0 = ''Text_0''" "getImplicitTextLabel (Suc 0) = ''Text_1''"
  "getImplicitTextLabel (Suc (Suc 0)) = ''Text_2''"
  by (simp_all add: getImplicitTextLabel_def showNat.simps digitChar_def)

theorem program_texts_labelled_witness:
  "map_option fst (ParseProgram (New (lexerOf twoScripts 9))) =
     Some (Some \<lparr>TopLevelStatements = twoScriptsTree,
       Texts = [\<lparr>Name = ''Text_0'', Value = ''Hello''\<rparr>, \<lparr>Name = ''Text_1'', Value = ''World''\<rparr>,
                \<lparr>Name = ''Text_2'', Value = ''Again''\<rparr>]\<rparr>)"
proof -
  have c1: "stmtG 0 [tk IDENT ''msgbox'' 2, tk LPAREN ''('' 2, tk STRING ''Hello'' 2, tk RPAREN '')'' 2]
      firstCommand [''Hello'']"
    using call[of "tk IDENT ''msgbox'' 2" "tk LPAREN ''('' 2" "[tk STRING ''Hello'' 2]"
        "tk RPAREN '')'' 2" 0]
    by (simp add: firstCommand_def tk_def commandArgs_def argText_def stringLiterals_def
          label_simps)
  have b1: "blockG 0 [tk IDENT ''msgbox'' 2, tk LPAREN ''('' 2, tk STRING ''Hello'' 2, tk RPAREN '')'' 2]
      [firstCommand] [''Hello'']"
    using blockCons[OF c1 blockNil] by simp
  have t1: "topG 0 [tk SCRIPT ''script'' 1, tk IDENT ''First'' 1, tk LBRACE ''{'' 1,
      tk IDENT ''msgbox'' 2, tk LPAREN ''('' 2, tk STRING ''Hello'' 2, tk RPAREN '')'' 2,
      tk RBRACE ''}'' 3] (twoScriptsTree ! 0) [''Hello'']"
    using scriptT[OF _ _ _ b1, of "tk SCRIPT ''script'' 1" "tk IDENT ''First'' 1"
        "tk LBRACE ''{'' 1" "tk RBRACE ''}'' 3"]
    by (simp add: twoScriptsTree_def tk_def)
  have c2: "stmtG 1 [tk IDENT ''msgbox'' 6, tk LPAREN ''('' 6, tk STRING ''World'' 6,
      tk COMMA '','' 6, tk STRING ''Again'' 6, tk RPAREN '')'' 6] secondCommand [''World'', ''Again'']"
    using call[of "tk IDENT ''msgbox'' 6" "tk LPAREN ''('' 6"
        "[tk STRING ''World'' 6, tk COMMA '','' 6, tk STRING ''Again'' 6]" "tk RPAREN '')'' 6" 1]
    by (simp add: secondCommand_def tk_def commandArgs_def argText_def stringLiterals_def
          label_simps)
  have b2: "blockG 1 [tk IDENT ''msgbox'' 6, tk LPAREN ''('' 6, tk STRING ''World'' 6,
      tk COMMA '','' 6, tk STRING ''Again'' 6, tk RPAREN '')'' 6] [secondCommand]
      [''World'', ''Again'']"
    using blockCons[OF c2 blockNil] by simp
  have cd: "condG 1 [tk FLAG ''flag'' 5, tk LPAREN ''('' 5,
      tk IDENT ''FLAG_A'' 5, tk RPAREN '')'' 5, tk EQ ''=='' 5, tk TRUE ''TRUE'' 5,
      tk RPAREN '')'' 5, tk LBRACE ''{'' 5,
      tk IDENT ''msgbox'' 6, tk LPAREN ''('' 6, tk STRING ''World'' 6, tk COMMA '','' 6,
      tk STRING ''Again'' 6, tk RPAREN '')'' 6,
      tk RBRACE ''}'' 7]
      (ConditionExpression FLAG ''FLAG_A'' EQ ''TRUE''
                 (Some (BlockStatement (tk IDENT ''msgbox'' 6) [secondCommand])))
      [''World'', ''Again'']"
    using flagC[OF _ _ _ _ _ _ _ _ _ b2, of "tk FLAG ''flag'' 5" "tk LPAREN ''('' 5"
        "[tk IDENT ''FLAG_A'' 5]" "tk RPAREN '')'' 5" "tk EQ ''=='' 5" "tk TRUE ''TRUE'' 5"
        "tk RPAREN '')'' 5" "tk LBRACE ''{'' 5" "tk RBRACE ''}'' 7"]
    by (simp add: tk_def)
  have i2: "stmtG 1 [tk IF ''if'' 5, tk LPAREN ''('' 5, tk FLAG ''flag'' 5, tk LPAREN ''('' 5,
      tk IDENT ''FLAG_A'' 5, tk RPAREN '')'' 5, tk EQ ''=='' 5, tk TRUE ''TRUE'' 5,
      tk RPAREN '')'' 5, tk LBRACE ''{'' 5,
      tk IDENT ''msgbox'' 6, tk LPAREN ''('' 6, tk STRING ''World'' 6, tk COMMA '','' 6,
      tk STRING ''Again'' 6, tk RPAREN '')'' 6,
      tk RBRACE ''}'' 7]
      (IfStatement (tk IF ''if'' 5)
              (ConditionExpression FLAG ''FLAG_A'' EQ ''TRUE''
                 (Some (BlockStatement (tk IDENT ''msgbox'' 6) [secondCommand])))
              [] None)
      [''World'', ''Again'']"
    using ifS[OF _ _ cd elifsNil, of "tk IF ''if'' 5" "tk LPAREN ''('' 5"]
    by (simp add: tk_def)
  note b3 = blockCons[OF i2 blockNil, simplified]
  have t2: "topG (0 + length [''Hello''])
     [tk SCRIPT ''script'' 4, tk IDENT ''Second'' 4, tk LBRACE ''{'' 4,
      tk IF ''if'' 5, tk LPAREN ''('' 5, tk FLAG ''flag'' 5, tk LPAREN ''('' 5,
      tk IDENT ''FLAG_A'' 5, tk RPAREN '')'' 5, tk EQ ''=='' 5, tk TRUE ''TRUE'' 5,
      tk RPAREN '')'' 5, tk LBRACE ''{'' 5,
      tk IDENT ''msgbox'' 6, tk LPAREN ''('' 6, tk STRING ''World'' 6, tk COMMA '','' 6,
      tk STRING ''Again'' 6, tk RPAREN '')'' 6,
      tk RBRACE ''}'' 7,
      tk RBRACE ''}'' 8] (twoScriptsTree ! 1) [''World'', ''Again'']"
    using scriptT[OF _ _ _ b3, of "tk SCRIPT ''script'' 4" "tk IDENT ''Second'' 4"
        "tk LBRACE ''{'' 4" "tk RBRACE ''}'' 8"]
    by (simp add: twoScriptsTree_def tk_def)
  have g: "programG 0 twoScripts twoScriptsTree [''Hello'', ''World'', ''Again'']"
    using programCons[OF t1 programCons[OF t2 programNil]]
    by (simp add: twoScripts_def twoScriptsTree_def)
  have e: "implicitTextEntries [''Hello'', ''World'', ''Again''] =
      [\<lparr>Name = ''Text_0'', Value = ''Hello''\<rparr>, \<lparr>Name = ''Text_1'', Value = ''World''\<rparr>,
       \<lparr>Name = ''Text_2'', Value = ''Again''\<rparr>]"
    by (simp add: implicitTextEntries_def label_simps upt_rec)
  from program_texts_labelled[OF g, of 9] show ?thesis by (simp add: e)
qed

section \<open>Conditions are single operator expressions\<close>











end
